theory Spec2Isabelle
  imports Complex_Main
begin

section \<open>Data model\<close>

text \<open>
  The embedding follows \<^verbatim>\<open>src/js/tetris.ts\<close>. JavaScript numbers that hold
  rows, columns, indices, piece types and cell values are modelled as \<open>int\<close>; the score,
  which the landing sequence raises to a fractional power, is modelled as \<open>real\<close>.
  An uncaught \<^verbatim>\<open>TypeError\<close> (reading a property of \<^verbatim>\<open>undefined\<close>) is
  the value \<open>Inl TypeError\<close>; a loop that never exits is \<open>Inl Diverges\<close>.
\<close>

datatype error = TypeError | Diverges

type_synonym shape = "int list list"
type_synonym perimeter = "int list list"
type_synonym position = "int \<times> int" \<comment> \<open>\<open>(row, col)\<close>\<close>

text \<open>The interface \<^verbatim>\<open>TetRep\<close>: a shape with its \<^verbatim>\<open>topLeft\<close>.\<close>

type_synonym tetRep = "shape \<times> position"

record tet =
  type :: int
  rotation :: int
  pivot :: int
  pivotMax :: int
  topLeft :: position
  shape :: shape
  perim :: perimeter

section \<open>Shape catalog: \<^verbatim>\<open>Tet.getShapeMatrix\<close>\<close>

definition matrixMatrix :: "shape list list" where
  "matrixMatrix =
    [ [ [[1,1,1,1]],       [[1],[1],[1],[1]] ],
      [ [[1,1,1],[0,0,1]], [[0,1],[0,1],[1,1]], [[1],[1,1,1]], [[1,1],[1],[1]] ],
      [ [[1,1,1],[1]],     [[1,1],[0,1],[0,1]], [[0,0,1],[1,1,1]], [[1],[1],[1,1]] ],
      [ [[1,1],[1,1]] ],
      [ [[0,1,1],[1,1]],   [[1],[1,1],[0,1]] ],
      [ [[1,1,1],[0,1]],   [[0,1],[1,1],[0,1]], [[0,1],[1,1,1]], [[1],[1,1],[1]] ],
      [ [[1,1],[0,1,1]],   [[0,1],[1,1],[1]] ] ]"

text \<open>
  An array read \<^verbatim>\<open>xs[i]\<close>: \<open>None\<close> stands for \<^verbatim>\<open>undefined\<close> (index out of
  range).
\<close>

definition jsIndex :: "'a list \<Rightarrow> int \<Rightarrow> 'a option" where
  "jsIndex xs i = (if 0 \<le> i \<and> i < int (length xs) then Some (xs ! nat i) else None)"

text \<open>The remainder \<^verbatim>\<open>r % 2\<close>, which takes the sign of \<open>r\<close>.\<close>

definition jsRem2 :: "int \<Rightarrow> int" where
  "jsRem2 r = (if 0 \<le> r then r mod 2 else - ((- r) mod 2))"

text \<open>The first \<^verbatim>\<open>switch\<close> of \<^verbatim>\<open>getShapeMatrix\<close>: the value stored in \<^verbatim>\<open>pivotMax\<close>.\<close>

definition pivotMaxOf :: "int \<Rightarrow> int" where
  "pivotMaxOf ty = (if ty = 0 then 3 else if ty = 3 then 0 else 1)"

text \<open>
  \<^verbatim>\<open>getShapeMatrix(rotation)\<close> of a piece of type \<open>ty\<close>: the shape, paired with the
  \<^verbatim>\<open>pivotMax\<close> it stores in the piece. For a type outside the table
  \<^verbatim>\<open>m.length\<close> raises. For a rotation outside the entry the source returns
  \<^verbatim>\<open>undefined\<close>, which each of its callers dereferences at once
  (\<^verbatim>\<open>potShape.length\<close>, \<^verbatim>\<open>shape.length\<close>): that is the same \<open>TypeError\<close>.
\<close>

definition getShapeMatrix :: "int \<Rightarrow> int \<Rightarrow> error + (shape \<times> int)" where
  "getShapeMatrix ty rot =
    (case jsIndex matrixMatrix ty of
       None \<Rightarrow> Inl TypeError
     | Some m \<Rightarrow>
        (if length m = 1 then Inr (m ! 0, pivotMaxOf ty)
         else if length m = 2 then
           (case jsIndex m (jsRem2 rot) of
              None \<Rightarrow> Inl TypeError | Some s \<Rightarrow> Inr (s, pivotMaxOf ty))
         else if length m = 4 then
           (case jsIndex m rot of
              None \<Rightarrow> Inl TypeError | Some s \<Rightarrow> Inr (s, pivotMaxOf ty))
         else Inr ([], pivotMaxOf ty)))"

section \<open>Perimeter matcher: \<^verbatim>\<open>Tet.getPerim\<close>\<close>

definition periMatrix :: "(shape \<times> perimeter) list" where
  "periMatrix =
    [ ([[1]],               [[0,0],[0,1],[1,1],[1,0]]),
      ([[1,1]],             [[0,0],[0,1],[2,1],[2,0]]),
      ([[1],[1]],           [[0,0],[0,2],[1,2],[1,0]]),
      ([[1,1,1]],           [[0,0],[0,1],[3,1],[3,0]]),
      ([[1],[1],[1]],       [[0,0],[0,3],[1,3],[1,0]]),
      ([[1,1],[0,1]],       [[0,0],[0,1],[1,1],[1,2],[2,2],[2,0]]),
      ([[0,1],[1,1]],       [[1,0],[1,1],[0,1],[0,2],[2,2],[2,0]]),
      ([[1],[1,1]],         [[0,0],[0,2],[2,2],[2,1],[1,1],[1,0]]),
      ([[1,1],[1]],         [[0,0],[0,2],[1,2],[1,1],[2,1],[2,0]]),
      ([[1,1,1,1]],         [[0,0],[0,1],[4,1],[4,0]]),
      ([[1],[1],[1],[1]],   [[0,0],[0,4],[1,4],[1,0]]),
      ([[1,1,1],[0,0,1]],   [[0,0],[0,1],[2,1],[2,2],[3,2],[3,0]]),
      ([[0,1],[0,1],[1,1]], [[1,0],[1,2],[0,2],[0,3],[2,3],[2,0]]),
      ([[1],[1,1,1]],       [[0,0],[0,2],[3,2],[3,1],[1,1],[1,0]]),
      ([[1,1],[1],[1]],     [[0,0],[0,3],[1,3],[1,1],[2,1],[2,0]]),
      ([[1,1,1],[1]],       [[0,0],[0,2],[1,2],[1,1],[3,1],[3,0]]),
      ([[1,1],[0,1],[0,1]], [[0,0],[0,1],[1,1],[1,3],[2,3],[2,0]]),
      ([[0,0,1],[1,1,1]],   [[2,0],[2,1],[0,1],[0,2],[3,2],[3,0]]),
      ([[1],[1],[1,1]],     [[0,0],[0,3],[2,3],[2,2],[1,2],[1,0]]),
      ([[1,1],[1,1]],       [[0,0],[0,2],[2,2],[2,0]]),
      ([[0,1,1],[1,1]],     [[1,0],[1,1],[0,1],[0,2],[2,2],[2,1],[3,1],[3,0]]),
      ([[1],[1,1],[0,1]],   [[0,0],[0,2],[1,2],[1,3],[2,3],[2,1],[1,1],[1,0]]),
      ([[1,1,1],[0,1]],     [[0,0],[0,1],[1,1],[1,2],[2,2],[2,1],[3,1],[3,0]]),
      ([[0,1],[1,1],[0,1]], [[1,0],[1,1],[0,1],[0,2],[1,2],[1,3],[2,3],[2,0]]),
      ([[0,1],[1,1,1]],     [[1,0],[1,1],[0,1],[0,2],[3,2],[3,1],[2,1],[2,0]]),
      ([[1],[1,1],[1]],     [[0,0],[0,3],[1,3],[1,2],[2,2],[2,1],[1,1],[1,0]]),
      ([[1,1],[0,1,1]],     [[0,0],[0,1],[1,1],[1,2],[3,2],[3,1],[2,1],[2,0]]),
      ([[0,1],[1,1],[1]],   [[1,0],[1,1],[0,1],[0,3],[1,3],[1,2],[2,2],[2,0]]) ]"

text \<open>
  The innermost loop of \<^verbatim>\<open>getPerim\<close> over the columns still to visit; the result is
  the value of \<^verbatim>\<open>checkNextShape\<close> when the loop is left. The length test sits inside
  the loop body, so it is not made for a row of length 0.
\<close>

fun colLoop :: "int list \<Rightarrow> int list \<Rightarrow> nat list \<Rightarrow> bool" where
  "colLoop srow crow [] = False"
| "colLoop srow crow (col # cols) =
    (if length srow \<noteq> length crow then True
     else if srow ! col = crow ! col then colLoop srow crow cols
     else True)"

text \<open>
  The loop over the rows still to visit. The row-count test sits inside the loop body, so
  it is not made for a shape with no rows.
\<close>

fun rowLoop :: "shape \<Rightarrow> shape \<Rightarrow> nat list \<Rightarrow> bool" where
  "rowLoop s c [] = False"
| "rowLoop s c (row # rows) =
    (if length s \<noteq> length c then True
     else if colLoop (s ! row) (c ! row) [0..<length (s ! row)] then True
     else rowLoop s c rows)"

text \<open>The outer loop over the entries of \<^verbatim>\<open>periMatrix\<close> still to visit.\<close>

fun perimScan :: "(shape \<times> perimeter) list \<Rightarrow> shape \<Rightarrow> perimeter" where
  "perimScan [] s = []"
| "perimScan (e # es) s =
    (if \<not> rowLoop s (fst e) [0..<length s] then snd e else perimScan es s)"

definition getPerim :: "shape \<Rightarrow> perimeter" where
  "getPerim s = perimScan periMatrix s"

text \<open>
  The matching rule in the words of the specification: same number of rows, same length
  of each row, and cells that agree on being zero or not. It is stated to be compared
  with \<open>getPerim\<close>.
\<close>

definition specMatches :: "shape \<Rightarrow> shape \<Rightarrow> bool" where
  "specMatches s c = list_all2 (list_all2 (\<lambda>x y. (x = 0) = (y = 0))) s c"

definition specGetPerim :: "shape \<Rightarrow> perimeter" where
  "specGetPerim s =
    (case find (\<lambda>e. specMatches s (fst e)) periMatrix of
       None \<Rightarrow> [] | Some e \<Rightarrow> snd e)"

section \<open>The constructor of \<^verbatim>\<open>Tet\<close>\<close>

text \<open>
  The expression assigned to \<^verbatim>\<open>this.type\<close>. The argument is \<open>None\<close> when the
  caller passes no type; \<open>rnd\<close> is the value of \<^verbatim>\<open>Math.floor(Math.random() * 7)\<close>,
  which is evaluated only in the second branch. The guard starts with the truthiness of
  \<^verbatim>\<open>type\<close>, which fails for 0.
\<close>

definition Tet_type :: "int option \<Rightarrow> int \<Rightarrow> int" where
  "Tet_type ty rnd =
    (case ty of
       None \<Rightarrow> rnd
     | Some t \<Rightarrow> if t \<noteq> 0 \<and> t \<ge> -1 \<and> t < 7 then t else rnd)"

text \<open>
  \<^verbatim>\<open>setShape\<close> and the constructor. For a type below 0 the source leaves every other
  field unset; the only such call, in \<^verbatim>\<open>updateTet\<close>, assigns type, position, shape and
  perimeter right after, and rotation and pivot of such a fragment are never read. The
  unset fields are given the values below.
\<close>

definition setShape :: "shape \<Rightarrow> tet \<Rightarrow> tet" where
  "setShape s t = t\<lparr>shape := s, perim := getPerim s\<rparr>"

definition blankTet :: "int \<Rightarrow> tet" where
  "blankTet ty =
    \<lparr>type = ty, rotation = 0, pivot = 0, pivotMax = 0, topLeft = (0, 0), shape = [], perim = []\<rparr>"

definition Tet_new :: "int option \<Rightarrow> int \<Rightarrow> error + tet" where
  "Tet_new ty rnd =
    (let t = Tet_type ty rnd in
     if t > -1 then
       (case getShapeMatrix t 0 of
          Inl e \<Rightarrow> Inl e
        | Inr (s, pm) \<Rightarrow>
            Inr (setShape s ((blankTet t)\<lparr>rotation := 0, pivot := 0, pivotMax := pm, topLeft := (0, 4)\<rparr>)))
     else Inr (blankTet t))"

section \<open>Score and high scores\<close>

text \<open>
  The amount \<^verbatim>\<open>(fRLen ** (1 + (fRLen - 1) * 0.1)) * 10000\<close> that \<^verbatim>\<open>collided\<close>
  adds to the score for \<open>fRLen\<close> full rows, over the real numbers.
\<close>

definition rowScore :: "nat \<Rightarrow> real" where
  "rowScore fRLen = (real fRLen powr (1 + (real fRLen - 1) * (1 / 10))) * 10000"

text \<open>
  \<^verbatim>\<open>getHighScores\<close>: the cookie holds the stored list, \<open>None\<close> when it was never
  set; the result is the list and the cookie afterwards.
\<close>

definition getHighScores :: "real \<Rightarrow> real list option \<Rightarrow> real list \<times> real list option" where
  "getHighScores sc cookie =
    (case cookie of
       None \<Rightarrow> (let hsOut = [sc, 0, 0, 0, 0, 0, 0, 0, 0, 0] in (hsOut, Some hsOut))
     | Some hs \<Rightarrow> (hs, cookie))"

text \<open>The loop of \<^verbatim>\<open>checkHighScore\<close>: \<^verbatim>\<open>splice(i, 0, score)\<close> at the first entry below the score.\<close>

fun insertScore :: "real \<Rightarrow> real list \<Rightarrow> real list" where
  "insertScore sc [] = []"
| "insertScore sc (h # hs) = (if sc > h then sc # h # hs else h # insertScore sc hs)"

text \<open>
  \<^verbatim>\<open>checkHighScore\<close> on the fields \<^verbatim>\<open>updateScore\<close> and \<^verbatim>\<open>score\<close> and the
  cookie: the returned list, the flag and the cookie afterwards.
\<close>

definition checkHighScore ::
  "bool \<Rightarrow> real \<Rightarrow> real list option \<Rightarrow> real list \<times> bool \<times> real list option" where
  "checkHighScore upd sc cookie =
    (case getHighScores sc cookie of
       (highScores, cookie1) \<Rightarrow>
         if upd then
           (let hsLen = length highScores;
                hs1 = insertScore sc highScores;
                hs2 = (if length hs1 > hsLen then butlast hs1 else hs1)
            in (hs2, False, Some hs2))
         else (highScores, upd, cookie1))"

section \<open>Normalisation and fragmentation: \<^verbatim>\<open>cleanShape\<close>, \<^verbatim>\<open>updateTet\<close>\<close>

text \<open>
  The first \<^verbatim>\<open>for\<close> loop of \<^verbatim>\<open>cleanShape\<close>: some row starts with a positive cell.
  For a row of length 0 the test \<^verbatim>\<open>undefined > 0\<close> is false.
\<close>

definition firstColOccupied :: "shape \<Rightarrow> bool" where
  "firstColOccupied sh = list_ex (\<lambda>r. case r of [] \<Rightarrow> False | x # _ \<Rightarrow> x > 0) sh"

text \<open>
  The \<^verbatim>\<open>while (true)\<close> loop of \<^verbatim>\<open>cleanShape\<close>: it drops the first cell of every
  row and moves the column right until some row starts with a positive cell. It never
  exits when no cell is positive, and then the value is \<open>None\<close>.
\<close>

partial_function (option) stripLeft :: "shape \<Rightarrow> int \<Rightarrow> (shape \<times> int) option" where
  "stripLeft sh col =
    (if firstColOccupied sh then Some (sh, col)
     else stripLeft (map (drop 1) sh) (col + 1))"

declare stripLeft.simps [code]

text \<open>The second part: cells equal to 0 are removed from the end of a row.\<close>

definition stripRight :: "int list \<Rightarrow> int list" where
  "stripRight r = rev (dropWhile (\<lambda>x. x = 0) (rev r))"

definition cleanShape :: "tetRep \<Rightarrow> tetRep option" where
  "cleanShape rep =
    (case stripLeft (fst rep) (snd (snd rep)) of
       None \<Rightarrow> None
     | Some (sh, col) \<Rightarrow> Some (map stripRight sh, (fst (snd rep), col)))"

text \<open>
  The normal form in the words of the specification: the first column is not zero in
  every row, and no row ends with a zero cell.
\<close>

definition specNormalized :: "shape \<Rightarrow> bool" where
  "specNormalized sh =
    (\<not> (\<forall>r \<in> set sh. r = [] \<or> hd r = 0) \<and> (\<forall>r \<in> set sh. r = [] \<or> last r \<noteq> 0))"

definition arrayIsAllZeros :: "int list \<Rightarrow> bool" where
  "arrayIsAllZeros arr = (\<not> list_ex (\<lambda>x. x > 0) arr)"

text \<open>
  The first loop of \<^verbatim>\<open>updateTet\<close> over the rows still to visit: \<open>pos\<close> is the
  piece's \<^verbatim>\<open>topLeft\<close>, \<open>row\<close> the index of the next row, and \<open>currShape\<close>,
  \<open>topLeft\<close> and \<open>q\<close> are the variables of the source.
\<close>

fun fragLoop ::
  "position \<Rightarrow> shape \<Rightarrow> int \<Rightarrow> shape \<Rightarrow> position \<Rightarrow> tetRep list \<Rightarrow> tetRep list \<times> shape \<times> position" where
  "fragLoop pos [] row currShape topLeftV q = (q, currShape, topLeftV)"
| "fragLoop pos (r # rs) row currShape topLeftV q =
    (if \<not> arrayIsAllZeros r then
       fragLoop pos rs (row + 1) (currShape @ [r])
         (if currShape = [] then (fst pos + row, snd pos) else topLeftV) q
     else if currShape = [] then fragLoop pos rs (row + 1) currShape topLeftV q
     else fragLoop pos rs (row + 1) [] topLeftV (q @ [(currShape, topLeftV)]))"

text \<open>The queue \<open>q\<close> after the loop and the push that follows it.\<close>

definition fragmentQueue :: "tet \<Rightarrow> tetRep list" where
  "fragmentQueue t =
    (case fragLoop (topLeft t) (shape t) 0 [] (topLeft t) [] of
       (q, currShape, topLeftV) \<Rightarrow>
         if currShape \<noteq> [] then q @ [(currShape, topLeftV)] else q)"

text \<open>\<^verbatim>\<open>cleanShape\<close> on each entry of the queue, in order.\<close>

fun cleanAll :: "tetRep list \<Rightarrow> tetRep list option" where
  "cleanAll [] = Some []"
| "cleanAll (r # rs) =
    (case cleanShape r of
       None \<Rightarrow> None
     | Some r' \<Rightarrow> (case cleanAll rs of None \<Rightarrow> None | Some rs' \<Rightarrow> Some (r' # rs')))"

text \<open>
  A fragment: \<^verbatim>\<open>new Tet(this.game, -1)\<close>, then type, position, shape and perimeter
  assigned by hand.
\<close>

definition fragmentTet :: "tet \<Rightarrow> tetRep \<Rightarrow> tet" where
  "fragmentTet t r = setShape (fst r) ((blankTet (Tet_type (Some (-1)) 0))\<lparr>type := type t, topLeft := snd r\<rparr>)"

text \<open>
  \<^verbatim>\<open>updateTet\<close> on the piece alone: the piece afterwards, the fragments it spawns in
  order, and whether the piece is queued for removal. \<open>None\<close> when \<^verbatim>\<open>cleanShape\<close>
  does not return.
\<close>

definition updateTetPieces :: "tet \<Rightarrow> (tet \<times> tet list \<times> bool) option" where
  "updateTetPieces t =
    (case cleanAll (fragmentQueue t) of
       None \<Rightarrow> None
     | Some [] \<Rightarrow> Some (t, [], True)
     | Some (r # rs) \<Rightarrow>
         Some (setShape (fst r) (t\<lparr>topLeft := snd r\<rparr>), map (fragmentTet t) rs, False))"

text \<open>
  The cells of the shape that are not 0, in the order the nested loops of the source visit
  them, and the board cells they occupy at a position.
\<close>

definition shapeCells :: "shape \<Rightarrow> (nat \<times> nat) list" where
  "shapeCells sh =
    concat (map (\<lambda>row. map (\<lambda>col. (row, col))
                          (filter (\<lambda>col. sh ! row ! col \<noteq> 0) [0..<length (sh ! row)]))
                [0..<length sh])"

definition occupied :: "shape \<Rightarrow> position \<Rightarrow> (int \<times> int) set" where
  "occupied sh pos = (\<lambda>(row, col). (fst pos + int row, snd pos + int col)) ` set (shapeCells sh)"

definition tetCells :: "tet \<Rightarrow> (int \<times> int) set" where
  "tetCells t = occupied (shape t) (topLeft t)"

text \<open>
  The cells of every shape of the catalog are 0 or 1, and the program writes no other
  value into a shape than 0: no cell is negative. The tests \<^verbatim>\<open>> 0\<close> of
  \<^verbatim>\<open>cleanShape\<close> and \<^verbatim>\<open>arrayIsAllZeros\<close> and the tests \<^verbatim>\<open>!== 0\<close> of the
  collision checks agree on such shapes.
\<close>

definition nonnegCells :: "shape \<Rightarrow> bool" where
  "nonnegCells sh = (\<forall>r \<in> set sh. \<forall>x \<in> set r. 0 \<le> x)"

text \<open>An entry of the queue of \<^verbatim>\<open>updateTet\<close> with a positive cell and no negative one.\<close>

definition goodRep :: "tetRep \<Rightarrow> bool" where
  "goodRep rep = ((\<exists>r \<in> set (fst rep). \<not> arrayIsAllZeros r) \<and> nonnegCells (fst rep))"

section \<open>The game\<close>

definition BOARD_ROW_NUM :: int where "BOARD_ROW_NUM = 16"
definition BOARD_COL_NUM :: int where "BOARD_COL_NUM = 10"

text \<open>
  A row of the landed array is a JavaScript array that the source writes at computed
  indices: it is modelled as the map from its defined indices to their values. Pieces are
  objects compared by identity: they live in \<open>heap\<close> and are named by their index there.
  \<open>moveLoops\<close> records the pieces whose settling timer \<^verbatim>\<open>moveLoop\<close> has been started.
\<close>

type_synonym landedRow = "int \<rightharpoonup> int"
type_synonym landedMap = "landedRow list"

record game =
  heap :: "tet list"
  newTet :: bool
  currTet :: "nat option"
  nextTet :: "nat option"
  updateLanded :: bool
  allTets :: "nat list"
  tetsToRemove :: "int list"
  score :: real
  updateScore :: bool
  gameOver :: bool
  landed :: landedMap
  moveLoops :: "nat list"

definition emptyRow :: landedRow where
  "emptyRow = (\<lambda>c. if 0 \<le> c \<and> c < 10 then Some 0 else None)"

definition blankLanded :: landedMap where
  "blankLanded = replicate 16 emptyRow"

text \<open>\<^verbatim>\<open>this.landed[r][c] = 1\<close>: it raises when row \<open>r\<close> is undefined.\<close>

definition markCell :: "landedMap \<Rightarrow> int \<Rightarrow> int \<Rightarrow> error + landedMap" where
  "markCell l r c =
    (if 0 \<le> r \<and> r < int (length l) then Inr (l[nat r := (l ! nat r)(c \<mapsto> 1)])
     else Inl TypeError)"

fun markCells :: "landedMap \<Rightarrow> position \<Rightarrow> (nat \<times> nat) list \<Rightarrow> error + landedMap" where
  "markCells l pos [] = Inr l"
| "markCells l pos (rc # cs) =
    (case markCell l (int (fst rc) + fst pos) (int (snd rc) + snd pos) of
       Inl e \<Rightarrow> Inl e
     | Inr l' \<Rightarrow> markCells l' pos cs)"

text \<open>
  The loop of \<^verbatim>\<open>getLanded\<close> over the pieces of \<^verbatim>\<open>allTets\<close> still to visit; \<open>cur\<close> is
  \<^verbatim>\<open>this.currTet\<close> and \<open>ex\<close> the argument \<^verbatim>\<open>tet\<close>.
\<close>

fun markTets ::
  "tet list \<Rightarrow> nat option \<Rightarrow> nat option \<Rightarrow> landedMap \<Rightarrow> nat list \<Rightarrow> error + landedMap" where
  "markTets h cur ex l [] = Inr l"
| "markTets h cur ex l (a # as) =
    (if Some a = cur \<or> Some a = ex then markTets h cur ex l as
     else
       (case markCells l (topLeft (h ! a)) (shapeCells (shape (h ! a))) of
          Inl e \<Rightarrow> Inl e
        | Inr l' \<Rightarrow> markTets h cur ex l' as))"

definition getLanded :: "nat option \<Rightarrow> game \<Rightarrow> error + (landedMap \<times> game)" where
  "getLanded ex g =
    (let g1 = (if ex \<noteq> None then g\<lparr>updateLanded := True\<rparr> else g) in
     if updateLanded g1 then
       (case markTets (heap g1) (currTet g1) ex blankLanded (allTets g1) of
          Inl e \<Rightarrow> Inl e
        | Inr l \<Rightarrow> Inr (l, g1\<lparr>landed := l, updateLanded := False\<rparr>))
     else Inr (landed g1, g1))"

text \<open>
  The test \<^verbatim>\<open>landed[r][c] !== 0\<close>: it raises when row \<open>r\<close> is undefined, and holds
  when the cell is undefined.
\<close>

definition landedTaken :: "landedMap \<Rightarrow> int \<Rightarrow> int \<Rightarrow> error + bool" where
  "landedTaken l r c =
    (case jsIndex l r of None \<Rightarrow> Inl TypeError | Some rw \<Rightarrow> Inr (rw c \<noteq> Some 0))"

text \<open>
  Notions used to state what the landed array holds: the array that \<^verbatim>\<open>getLanded\<close>
  computes when it does compute, the cache being either marked stale or equal to that
  array, a cell of the array that is not \<^verbatim>\<open>0\<close>, and the board cells occupied by the
  pieces of \<^verbatim>\<open>allTets\<close> other than the piece at address \<open>a\<close>.
\<close>

definition landedExcluding :: "nat option \<Rightarrow> game \<Rightarrow> error + landedMap" where
  "landedExcluding ex g = markTets (heap g) (currTet g) ex blankLanded (allTets g)"

definition cacheCoherent :: "game \<Rightarrow> bool" where
  "cacheCoherent g = (updateLanded g \<or> landedExcluding None g = Inr (landed g))"

definition taken :: "landedMap \<Rightarrow> int \<Rightarrow> int \<Rightarrow> bool" where
  "taken l r c = ((l ! nat r) c \<noteq> Some 0)"

definition othersCells :: "nat \<Rightarrow> game \<Rightarrow> (int \<times> int) set" where
  "othersCells a g = (\<Union>b \<in> set (allTets g) - {a}. tetCells (heap g ! b))"

section \<open>Pieces on the board: collision, rotation, moves\<close>

text \<open>
  The nested loops of \<^verbatim>\<open>rotate\<close> over the occupied cells of the candidate shape still
  to visit: \<open>True\<close> when one of the four tests makes \<^verbatim>\<open>rotate\<close> return false.
\<close>

fun rotateBlocked :: "landedMap \<Rightarrow> position \<Rightarrow> (nat \<times> nat) list \<Rightarrow> error + bool" where
  "rotateBlocked l pos [] = Inr False"
| "rotateBlocked l pos (rc # cs) =
    (if int (snd rc) + snd pos < 0 then Inr True
     else if int (snd rc) + snd pos \<ge> BOARD_COL_NUM then Inr True
     else if int (fst rc) + fst pos \<ge> BOARD_ROW_NUM then Inr True
     else
       (case landedTaken l (int (fst rc) + fst pos) (int (snd rc) + snd pos) of
          Inl e \<Rightarrow> Inl e
        | Inr b \<Rightarrow> if b then Inr True else rotateBlocked l pos cs))"

text \<open>The rotation that follows \<open>r\<close>: \<^verbatim>\<open>potRot < 3 ? potRot + 1 : 0\<close>.\<close>

definition nextRotation :: "int \<Rightarrow> int" where
  "nextRotation r = (if r < 3 then r + 1 else 0)"

text \<open>
  \<^verbatim>\<open>rotate\<close> of the piece at address \<open>a\<close>: the returned boolean and the game
  afterwards. \<^verbatim>\<open>getShapeMatrix\<close> stores \<^verbatim>\<open>pivotMax\<close> in the piece before the
  tests.
\<close>

definition rotate :: "nat \<Rightarrow> game \<Rightarrow> error + (bool \<times> game)" where
  "rotate a g =
    (case getLanded None g of
       Inl e \<Rightarrow> Inl e
     | Inr (l, g1) \<Rightarrow>
        (let t = heap g1 ! a;
             potRot = nextRotation (rotation t)
         in case getShapeMatrix (type t) potRot of
              Inl e \<Rightarrow> Inl e
            | Inr (potShape, pm) \<Rightarrow>
               (let t1 = t\<lparr>pivotMax := pm\<rparr> in
                case rotateBlocked l (topLeft t1) (shapeCells potShape) of
                  Inl e \<Rightarrow> Inl e
                | Inr blocked \<Rightarrow>
                    if blocked then Inr (False, g1\<lparr>heap := (heap g1)[a := t1]\<rparr>)
                    else Inr (True, g1\<lparr>heap := (heap g1)[a :=
                           setShape potShape
                             (t1\<lparr>topLeft := (fst (topLeft t1), snd (topLeft t1) + pivot t1),
                                 pivot := 0, rotation := potRot\<rparr>)]\<rparr>))))"

text \<open>The loops of \<^verbatim>\<open>doesTetCollideBot\<close>.\<close>

fun botScan :: "landedMap \<Rightarrow> position \<Rightarrow> (nat \<times> nat) list \<Rightarrow> error + bool" where
  "botScan l pos [] = Inr False"
| "botScan l pos (rc # cs) =
    (if int (fst rc) + fst pos \<ge> BOARD_ROW_NUM then Inr True
     else
       (case landedTaken l (int (fst rc) + fst pos) (int (snd rc) + snd pos) of
          Inl e \<Rightarrow> Inl e
        | Inr b \<Rightarrow> if b then Inr True else botScan l pos cs))"

definition doesTetCollideBot :: "nat \<Rightarrow> position \<Rightarrow> game \<Rightarrow> error + (bool \<times> game)" where
  "doesTetCollideBot a potTopLeft g =
    (case getLanded (Some a) g of
       Inl e \<Rightarrow> Inl e
     | Inr (l, g1) \<Rightarrow>
        (case botScan l potTopLeft (shapeCells (shape (heap g1 ! a))) of
           Inl e \<Rightarrow> Inl e
         | Inr b \<Rightarrow> Inr (b, g1)))"

text \<open>
  The loops of \<^verbatim>\<open>doesTetCollideSide\<close>: which of its three tests, if any, made it
  return true.
\<close>

datatype sideHit = NoHit | LeftHit | RightHit | TakenHit

fun sideScan :: "landedMap \<Rightarrow> position \<Rightarrow> (nat \<times> nat) list \<Rightarrow> error + sideHit" where
  "sideScan l pos [] = Inr NoHit"
| "sideScan l pos (rc # cs) =
    (if int (snd rc) + snd pos < 0 then Inr LeftHit
     else if int (snd rc) + snd pos \<ge> BOARD_COL_NUM then Inr RightHit
     else
       (case landedTaken l (int (fst rc) + fst pos) (int (snd rc) + snd pos) of
          Inl e \<Rightarrow> Inl e
        | Inr b \<Rightarrow> if b then Inr TakenHit else sideScan l pos cs))"

text \<open>The guarded \<^verbatim>\<open>this.pivot++\<close>.\<close>

definition bumpPivot :: "tet \<Rightarrow> tet" where
  "bumpPivot t = (if pivot t < pivotMax t \<and> even (rotation t) then t\<lparr>pivot := pivot t + 1\<rparr> else t)"

text \<open>
  \<^verbatim>\<open>doesTetCollideSide\<close>; \<open>direction\<close> is \<open>None\<close> when the caller passes none. The
  landed array comes from \<^verbatim>\<open>getLanded()\<close> with no argument.
\<close>

definition doesTetCollideSide ::
  "nat \<Rightarrow> position \<Rightarrow> int option \<Rightarrow> game \<Rightarrow> error + (bool \<times> game)" where
  "doesTetCollideSide a potTopLeft direction g =
    (case getLanded None g of
       Inl e \<Rightarrow> Inl e
     | Inr (l, g1) \<Rightarrow>
        (let t = heap g1 ! a in
         case sideScan l potTopLeft (shapeCells (shape t)) of
           Inl e \<Rightarrow> Inl e
         | Inr NoHit \<Rightarrow> Inr (False, g1)
         | Inr LeftHit \<Rightarrow> Inr (True, g1)
         | Inr RightHit \<Rightarrow> Inr (True, g1\<lparr>heap := (heap g1)[a := bumpPivot t]\<rparr>)
         | Inr TakenHit \<Rightarrow>
             Inr (True, if direction = Some 1 then g1\<lparr>heap := (heap g1)[a := bumpPivot t]\<rparr> else g1)))"

text \<open>
  The side test in the words of the specification, with the landed array computed from
  every piece of \<^verbatim>\<open>allTets\<close>, the piece itself included. It is stated to be compared
  with \<open>doesTetCollideSide\<close>.
\<close>

definition specCollideSide :: "nat \<Rightarrow> position \<Rightarrow> game \<Rightarrow> bool" where
  "specCollideSide a potTopLeft g =
    (\<exists>(r, c) \<in> occupied (shape (heap g ! a)) potTopLeft.
       c < 0 \<or> c \<ge> BOARD_COL_NUM \<or> (\<exists>b \<in> set (allTets g). (r, c) \<in> tetCells (heap g ! b)))"

definition setTopLeft :: "nat \<Rightarrow> position \<Rightarrow> game \<Rightarrow> game" where
  "setTopLeft a p g = g\<lparr>heap := (heap g)[a := (heap g ! a)\<lparr>topLeft := p\<rparr>]\<rparr>"

definition moveLeft :: "nat \<Rightarrow> game \<Rightarrow> error + game" where
  "moveLeft a g =
    (let g0 = g\<lparr>heap := (heap g)[a := (heap g ! a)\<lparr>pivot := 0\<rparr>]\<rparr>;
         potTopLeft = (fst (topLeft (heap g0 ! a)), snd (topLeft (heap g0 ! a)) - 1)
     in case doesTetCollideSide a potTopLeft None g0 of
          Inl e \<Rightarrow> Inl e
        | Inr (b, g1) \<Rightarrow> Inr (if \<not> b then setTopLeft a potTopLeft g1 else g1))"

definition moveRight :: "nat \<Rightarrow> game \<Rightarrow> error + game" where
  "moveRight a g =
    (let potTopLeft = (fst (topLeft (heap g ! a)), snd (topLeft (heap g ! a)) + 1)
     in case doesTetCollideSide a potTopLeft (Some 1) g of
          Inl e \<Rightarrow> Inl e
        | Inr (b, g1) \<Rightarrow> Inr (if \<not> b then setTopLeft a potTopLeft g1 else g1))"

section \<open>Landing: \<^verbatim>\<open>collided\<close>, \<^verbatim>\<open>alterShapes\<close>, \<^verbatim>\<open>alterShape\<close>, \<^verbatim>\<open>updateTet\<close>\<close>

text \<open>\<^verbatim>\<open>indexOf\<close> and \<^verbatim>\<open>splice(i, 1)\<close> of JavaScript arrays.\<close>

definition indexOf :: "nat list \<Rightarrow> nat \<Rightarrow> int" where
  "indexOf xs a = (if a \<in> set xs then int (length (takeWhile (\<lambda>x. x \<noteq> a) xs)) else -1)"

definition splice1 :: "'a list \<Rightarrow> int \<Rightarrow> 'a list" where
  "splice1 xs i =
    (let n = int (length xs);
         start = (if i < 0 then max (n + i) 0 else min i n)
     in take (nat start) xs @ drop (nat start + 1) xs)"

text \<open>
  \<^verbatim>\<open>updateTet\<close> of the piece at address \<open>a\<close>: the fragments are new objects, pushed
  onto \<^verbatim>\<open>allTets\<close>.
\<close>

definition updateTet :: "nat \<Rightarrow> game \<Rightarrow> error + game" where
  "updateTet a g =
    (case updateTetPieces (heap g ! a) of
       None \<Rightarrow> Inl Diverges
     | Some (t', frags, removed) \<Rightarrow>
         Inr (g\<lparr>heap := (heap g)[a := t'] @ frags,
                allTets := allTets g @ [length (heap g)..<length (heap g) + length frags],
                tetsToRemove :=
                  (if removed then tetsToRemove g @ [indexOf (allTets g) a] else tetsToRemove g)\<rparr>))"

text \<open>The first loop of \<^verbatim>\<open>alterShape\<close> over the full rows still to visit.\<close>

fun zeroRows :: "shape \<Rightarrow> int \<Rightarrow> int list \<Rightarrow> shape" where
  "zeroRows sh topRow [] = sh"
| "zeroRows sh topRow (fr # frs) =
    (let row = fr - topRow in
     if row < 0 \<or> row > int (length sh) - 1 then zeroRows sh topRow frs
     else zeroRows (sh[nat row := map (\<lambda>_. 0) (sh ! nat row)]) topRow frs)"

definition alterShape :: "nat \<Rightarrow> int list \<Rightarrow> game \<Rightarrow> error + game" where
  "alterShape a fullRows g =
    (let t = heap g ! a in
     updateTet a (g\<lparr>heap := (heap g)[a := t\<lparr>shape := zeroRows (shape t) (fst (topLeft t)) fullRows\<rparr>]\<rparr>))"

text \<open>
  The first loop of \<^verbatim>\<open>alterShapes\<close>. Its bound is the length of \<^verbatim>\<open>allTets\<close> on
  entry and the fragments are pushed at the end, so it visits the pieces that were in
  \<^verbatim>\<open>allTets\<close> on entry, in order.
\<close>

fun alterLoop :: "int list \<Rightarrow> int \<Rightarrow> int \<Rightarrow> nat list \<Rightarrow> game \<Rightarrow> error + game" where
  "alterLoop fullRows firstRow lastRow [] g = Inr g"
| "alterLoop fullRows firstRow lastRow (a # as) g =
    (if fst (topLeft (heap g ! a)) \<le> firstRow - 4 \<or> fst (topLeft (heap g ! a)) > lastRow
     then alterLoop fullRows firstRow lastRow as g
     else
       (case alterShape a fullRows g of
          Inl e \<Rightarrow> Inl e
        | Inr g' \<Rightarrow> alterLoop fullRows firstRow lastRow as g'))"

text \<open>The second loop: \<^verbatim>\<open>this.allTets.splice(this.tetsToRemove[i] - i, 1)\<close>.\<close>

fun removeLoop :: "int list \<Rightarrow> int \<Rightarrow> nat list \<Rightarrow> nat list" where
  "removeLoop [] i aT = aT"
| "removeLoop (k # ks) i aT = removeLoop ks (i + 1) (splice1 aT (k - i))"

text \<open>\<^verbatim>\<open>alterShapes\<close>; its only caller passes a list that is not empty.\<close>

definition alterShapes :: "int list \<Rightarrow> game \<Rightarrow> error + game" where
  "alterShapes fullRows g =
    (case alterLoop fullRows (hd fullRows) (last fullRows) (allTets g) g of
       Inl e \<Rightarrow> Inl e
     | Inr g1 \<Rightarrow>
         Inr (g1\<lparr>allTets := removeLoop (tetsToRemove g1) 0 (allTets g1),
                 tetsToRemove := [], updateLanded := True\<rparr>))"

text \<open>
  The first loop of \<^verbatim>\<open>collided\<close>: a row is full when no cell of its columns 0 to 9
  is \<^verbatim>\<open>=== 0\<close>.
\<close>

definition rowFilled :: "landedMap \<Rightarrow> int \<Rightarrow> error + bool" where
  "rowFilled l row =
    (case jsIndex l row of
       None \<Rightarrow> Inl TypeError
     | Some rw \<Rightarrow> Inr (list_all (\<lambda>col. rw (int col) \<noteq> Some 0) [0..<10]))"

fun collectFull :: "landedMap \<Rightarrow> int list \<Rightarrow> error + int list" where
  "collectFull l [] = Inr []"
| "collectFull l (row # rows) =
    (case rowFilled l row of
       Inl e \<Rightarrow> Inl e
     | Inr b \<Rightarrow>
        (case collectFull l rows of
           Inl e \<Rightarrow> Inl e
         | Inr fr \<Rightarrow> Inr (if b then row # fr else fr)))"

text \<open>
  \<^verbatim>\<open>collided\<close> up to the start of the timer \<^verbatim>\<open>moveLoop\<close>, which is recorded in
  \<open>moveLoops\<close>; the callback of the timer runs later.
\<close>

definition collided :: "nat \<Rightarrow> game \<Rightarrow> error + game" where
  "collided a g =
    (case getLanded None g of
       Inl e \<Rightarrow> Inl e
     | Inr (l, g1) \<Rightarrow>
        (case collectFull l [fst (topLeft (heap g1 ! a))..BOARD_ROW_NUM - 1] of
           Inl e \<Rightarrow> Inl e
         | Inr fullRows \<Rightarrow>
            (let g2 = g1\<lparr>updateLanded := True\<rparr> in
             if fullRows = [] then Inr g2
             else
               (case alterShapes fullRows (g2\<lparr>score := score g2 + rowScore (length fullRows)\<rparr>) of
                  Inl e \<Rightarrow> Inl e
                | Inr g3 \<Rightarrow> Inr (g3\<lparr>updateLanded := True, moveLoops := moveLoops g3 @ [a]\<rparr>)))))"

definition moveDown :: "nat \<Rightarrow> game \<Rightarrow> error + game" where
  "moveDown a g =
    (let potTopLeft = (fst (topLeft (heap g ! a)) + 1, snd (topLeft (heap g ! a)))
     in case doesTetCollideBot a potTopLeft g of
          Inl e \<Rightarrow> Inl e
        | Inr (b, g1) \<Rightarrow>
            if \<not> b then Inr (setTopLeft a potTopLeft g1)
            else collided a (g1\<lparr>newTet := True, currTet := None, updateLanded := True\<rparr>))"

section \<open>Spawning: \<^verbatim>\<open>createTet\<close>\<close>

text \<open>\<^verbatim>\<open>new Tet(this, ty)\<close>: the address of the new piece and the game afterwards.\<close>

definition allocTet :: "int option \<Rightarrow> int \<Rightarrow> game \<Rightarrow> error + (nat \<times> game)" where
  "allocTet ty rnd g =
    (case Tet_new ty rnd of
       Inl e \<Rightarrow> Inl e
     | Inr t \<Rightarrow> Inr (length (heap g), g\<lparr>heap := heap g @ [t]\<rparr>))"

text \<open>
  The first block of \<^verbatim>\<open>createTet\<close>: \<open>d1\<close> is the value drawn there and \<open>d2\<close> the
  value the constructor draws if it comes to draw one.
\<close>

definition ensureNextTet :: "int \<Rightarrow> int \<Rightarrow> game \<Rightarrow> error + game" where
  "ensureNextTet d1 d2 g =
    (if nextTet g = None then
       (let t = (if d1 = 4 \<or> d1 = 6 then d1 - 1 else d1) in
        case allocTet (Some t) d2 g of
          Inl e \<Rightarrow> Inl e
        | Inr (a, g1) \<Rightarrow> Inr (g1\<lparr>nextTet := Some a\<rparr>))
     else Inr g)"

text \<open>
  \<^verbatim>\<open>createTet\<close>; \<open>d3\<close> is the value drawn by \<^verbatim>\<open>new Tet(this)\<close>. Drawing on the
  canvas is left out.
\<close>

definition createTet :: "int \<Rightarrow> int \<Rightarrow> int \<Rightarrow> game \<Rightarrow> error + game" where
  "createTet d1 d2 d3 g =
    (case ensureNextTet d1 d2 g of
       Inl e \<Rightarrow> Inl e
     | Inr g1 \<Rightarrow>
        (case (if newTet g1 then
                 (case allocTet None d3 g1 of
                    Inl e \<Rightarrow> Inl e
                  | Inr (a, g2) \<Rightarrow> Inr (g2\<lparr>currTet := nextTet g1, nextTet := Some a\<rparr>))
               else Inr g1) of
           Inl e \<Rightarrow> Inl e
         | Inr g2 \<Rightarrow>
            (let g3 = g2\<lparr>newTet := False\<rparr>;
                 g4 = (if currTet g3 = None then g3\<lparr>currTet := nextTet g3\<rparr> else g3)
             in case currTet g4 of
                  None \<Rightarrow> Inl TypeError
                | Some c \<Rightarrow>
                   (case doesTetCollideBot c (topLeft (heap g4 ! c)) g4 of
                      Inl e \<Rightarrow> Inl e
                    | Inr (b, g5) \<Rightarrow>
                        if b then Inr (g5\<lparr>nextTet := currTet g5, gameOver := True, newTet := True\<rparr>)
                        else Inr (g5\<lparr>allTets := allTets g5 @ [c]\<rparr>)))))"

text \<open>The fields set by the constructor of \<^verbatim>\<open>Game\<close>, and the constructor.\<close>

definition initGame :: game where
  "initGame =
    \<lparr>heap = [], newTet = True, currTet = None, nextTet = None, updateLanded = True,
     allTets = [], tetsToRemove = [], score = 0, updateScore = True, gameOver = False,
     landed = [], moveLoops = []\<rparr>"

definition Game_new :: "int \<Rightarrow> int \<Rightarrow> int \<Rightarrow> error + game" where
  "Game_new d1 d2 d3 = createTet d1 d2 d3 initGame"

section \<open>Events\<close>

text \<open>
  The events that act on the pieces while the game is neither paused nor in developer
  mode: a tick of the timer of \<^verbatim>\<open>tetDownLoop\<close>, with the values its
  \<^verbatim>\<open>createTet\<close> may draw, and the arrow keys, which act when \<^verbatim>\<open>canTetMove\<close>
  holds and there is a living piece. The timer is cleared when the game is over.
\<close>

datatype event = Tick int int int | KeyLeft | KeyRight | KeyUp | KeyDown

definition canTetMove :: "game \<Rightarrow> bool" where
  "canTetMove g = (newTet g = False \<and> gameOver g = False)"

definition onCurrTet :: "(nat \<Rightarrow> game \<Rightarrow> error + game) \<Rightarrow> game \<Rightarrow> error + game" where
  "onCurrTet f g =
    (case currTet g of
       None \<Rightarrow> Inr g
     | Some a \<Rightarrow> if canTetMove g then f a g else Inr g)"

fun handleEvent :: "event \<Rightarrow> game \<Rightarrow> error + game" where
  "handleEvent (Tick d1 d2 d3) g =
    (if gameOver g then Inr g
     else if newTet g then createTet d1 d2 d3 g
     else (case currTet g of None \<Rightarrow> Inr g | Some a \<Rightarrow> moveDown a g))"
| "handleEvent KeyLeft g = onCurrTet moveLeft g"
| "handleEvent KeyRight g = onCurrTet moveRight g"
| "handleEvent KeyUp g =
    onCurrTet (\<lambda>a g. case rotate a g of Inl e \<Rightarrow> Inl e | Inr (ok, g') \<Rightarrow> Inr g') g"
| "handleEvent KeyDown g = onCurrTet moveDown g"

fun handleEvents :: "event list \<Rightarrow> game \<Rightarrow> error + game" where
  "handleEvents [] g = Inr g"
| "handleEvents (ev # evs) g =
    (case handleEvent ev g of Inl e \<Rightarrow> Inl e | Inr g' \<Rightarrow> handleEvents evs g')"

text \<open>
  The property of the landed pieces that the collision tests are there to keep: every
  occupied cell of a landed piece is on the board, and no two landed pieces share a cell.
\<close>

definition landedPieces :: "game \<Rightarrow> nat list" where
  "landedPieces g = filter (\<lambda>a. Some a \<noteq> currTet g) (allTets g)"

definition onBoard :: "int \<times> int \<Rightarrow> bool" where
  "onBoard rc = (0 \<le> fst rc \<and> fst rc < BOARD_ROW_NUM \<and> 0 \<le> snd rc \<and> snd rc < BOARD_COL_NUM)"

definition landedInvariant :: "game \<Rightarrow> bool" where
  "landedInvariant g =
    ((\<forall>a \<in> set (landedPieces g). \<forall>rc \<in> tetCells (heap g ! a). onBoard rc)
     \<and> (\<forall>i < length (landedPieces g). \<forall>j < length (landedPieces g). i \<noteq> j \<longrightarrow>
          tetCells (heap g ! (landedPieces g ! i)) \<inter> tetCells (heap g ! (landedPieces g ! j)) = {}))"

text \<open>
  Notions used to state what a landing clears: the board cells occupied by the landed
  pieces, a row whose ten cells are all occupied, and the full rows from row \<open>r\<close> down to
  the floor, in order.
\<close>

definition landedCells :: "game \<Rightarrow> (int \<times> int) set" where
  "landedCells g = (\<Union>b \<in> set (landedPieces g). tetCells (heap g ! b))"

definition rowFull :: "game \<Rightarrow> int \<Rightarrow> bool" where
  "rowFull g r = (\<forall>c \<in> {0..<BOARD_COL_NUM}. (r, c) \<in> landedCells g)"

definition fullRowsFrom :: "game \<Rightarrow> int \<Rightarrow> int list" where
  "fullRowsFrom g r = filter (rowFull g) [r..BOARD_ROW_NUM - 1]"

text \<open>
  The states the events lead to. The rows of a piece are on the board; a piece made by the
  constructor from the catalog, while it is living, has a type in \<open>[0..6]\<close>, a rotation in
  \<open>[0..3]\<close> and the catalog shape for them, and is not above the board. In a well-formed
  game the pieces of \<^verbatim>\<open>allTets\<close> exist, have no negative cell and have their rows
  on the board; the cache of the landed array is stale or right; it is stale when a piece
  is to be created; the living piece and the next piece are such catalog pieces; and the
  next piece is not yet on the board.
\<close>

definition rowsOK :: "tet \<Rightarrow> bool" where
  "rowsOK t = (\<forall>rc \<in> tetCells t. 0 \<le> fst rc \<and> fst rc < BOARD_ROW_NUM)"

definition live :: "tet \<Rightarrow> bool" where
  "live t =
    (0 \<le> type t \<and> type t < 7 \<and> 0 \<le> rotation t \<and> rotation t \<le> 3 \<and> 0 \<le> fst (topLeft t)
     \<and> (\<exists>pm. getShapeMatrix (type t) (rotation t) = Inr (shape t, pm)) \<and> rowsOK t)"

definition wellFormed :: "game \<Rightarrow> bool" where
  "wellFormed g =
    ((\<forall>b \<in> set (allTets g).
        b < length (heap g) \<and> nonnegCells (shape (heap g ! b)) \<and> rowsOK (heap g ! b))
     \<and> cacheCoherent g
     \<and> (newTet g \<and> \<not> gameOver g \<longrightarrow> updateLanded g)
     \<and> (\<forall>a. currTet g = Some a \<longrightarrow> a < length (heap g) \<and> live (heap g ! a))
     \<and> (\<forall>n. nextTet g = Some n \<longrightarrow>
          n < length (heap g) \<and> n \<notin> set (allTets g) \<and> live (heap g ! n)
          \<and> (\<not> gameOver g \<longrightarrow> currTet g \<noteq> Some n)))"

text \<open>
  The part of well-formedness that concerns the pieces of \<^verbatim>\<open>allTets\<close> and the next
  piece, and the fields that the landing sequence leaves alone.
\<close>

definition piecesOK :: "game \<Rightarrow> bool" where
  "piecesOK g =
    ((\<forall>b \<in> set (allTets g).
        b < length (heap g) \<and> nonnegCells (shape (heap g ! b)) \<and> rowsOK (heap g ! b))
     \<and> (\<forall>n. nextTet g = Some n \<longrightarrow>
          n < length (heap g) \<and> n \<notin> set (allTets g) \<and> live (heap g ! n)))"

definition sameSlots :: "game \<Rightarrow> game \<Rightarrow> bool" where
  "sameSlots g g' =
    (currTet g' = currTet g \<and> nextTet g' = nextTet g \<and> newTet g' = newTet g
     \<and> gameOver g' = gameOver g)"

text \<open>The values an event may draw are values of \<^verbatim>\<open>Math.floor(Math.random() * 7)\<close>.\<close>

definition isDraw :: "int \<Rightarrow> bool" where
  "isDraw d = (0 \<le> d \<and> d \<le> 6)"

fun drawsOK :: "event \<Rightarrow> bool" where
  "drawsOK (Tick d1 d2 d3) = (isDraw d1 \<and> isDraw d2 \<and> isDraw d3)"
| "drawsOK ev = True"

text \<open>
  A run of the game: the first two pieces are J pieces; the first is rotated and dropped,
  the second is moved two columns to the left, dropped next to the first, pushed against
  it to the right, rotated and left to land.
\<close>

definition overlapTrace :: "event list" where
  "overlapTrace =
    KeyUp # replicate 14 (Tick 1 1 1) @ [Tick 1 1 1, KeyLeft, KeyLeft]
      @ replicate 13 (Tick 1 1 1) @ [KeyRight, KeyUp, Tick 1 1 1]"

text \<open>A game with one living piece and a stale cache, built by hand.\<close>

definition soloGame :: "tet \<Rightarrow> game" where
  "soloGame t = initGame\<lparr>heap := [t], newTet := False, currTet := Some 0, allTets := [0]\<rparr>"

definition pieceJ :: tet where
  "pieceJ =
    \<lparr>type = 1, rotation = 0, pivot = 0, pivotMax = 1, topLeft = (0, 4),
     shape = [[1, 1, 1], [0, 0, 1]], perim = [[0, 0], [0, 1], [2, 1], [2, 2], [3, 2], [3, 0]]\<rparr>"

definition pieceO :: tet where
  "pieceO =
    \<lparr>type = 3, rotation = 0, pivot = 0, pivotMax = 0, topLeft = (0, 4),
     shape = [[1, 1], [1, 1]], perim = [[0, 0], [0, 2], [2, 2], [2, 0]]\<rparr>"

text \<open>
  Five O pieces side by side on the floor, which fill rows 14 and 15; the piece at address
  4 is the one that has just landed.
\<close>

definition squaresGame :: game where
  "squaresGame =
    initGame\<lparr>heap := map (\<lambda>c. pieceO\<lparr>topLeft := (14, c)\<rparr>) [0, 2, 4, 6, 8],
             allTets := [0, 1, 2, 3, 4]\<rparr>"

section \<open>Properties\<close>

subsection \<open>The catalog and the constructor\<close>

lemma getShapeMatrix_total:
  assumes "0 \<le> ty" "ty < 7" "0 \<le> rot" "rot \<le> 3"
  shows "\<exists>s. getShapeMatrix ty rot = Inr (s, pivotMaxOf ty)"
proof -
  have ty: "ty = 0 \<or> ty = 1 \<or> ty = 2 \<or> ty = 3 \<or> ty = 4 \<or> ty = 5 \<or> ty = 6"
    using assms(1,2) by auto
  have rot: "rot = 0 \<or> rot = 1 \<or> rot = 2 \<or> rot = 3" using assms(3,4) by auto
  show ?thesis
    using ty rot
    by (elim disjE) (simp_all add: getShapeMatrix_def matrixMatrix_def jsIndex_def jsRem2_def)
qed

lemma Tet_type_range:
  assumes "0 \<le> rnd" "rnd \<le> 6"
  shows "-1 \<le> Tet_type ty rnd \<and> Tet_type ty rnd \<le> 6"
  using assms by (auto simp: Tet_type_def split: option.splits)

lemma Tet_new_type:
  assumes "0 \<le> rnd" "rnd \<le> 6"
  shows "\<exists>p. Tet_new ty rnd = Inr p \<and> type p = Tet_type ty rnd"
proof (cases "Tet_type ty rnd > -1")
  case True
  then have "0 \<le> Tet_type ty rnd" "Tet_type ty rnd < 7"
    using Tet_type_range [OF assms, of ty] by simp_all
  then obtain s where "getShapeMatrix (Tet_type ty rnd) 0 = Inr (s, pivotMaxOf (Tet_type ty rnd))"
    using getShapeMatrix_total [of "Tet_type ty rnd" 0] by auto
  then show ?thesis
    using True by (simp add: Tet_new_def Let_def setShape_def blankTet_def)
next
  case False
  then show ?thesis by (simp add: Tet_new_def Let_def blankTet_def)
qed

text \<open>
  C10. The constructor stores the requested type \<open>t\<close> in the piece, whatever the random
  draw, exactly when \<open>t\<close> lies in \<open>[-1..6]\<close> and is not 0. For a requested 0 the guard
  fails and the stored type is the value drawn from \<open>[0..6]\<close>, so the piece need not be the
  I piece.
\<close>

theorem Tet_type_requested:
  "((\<forall>rnd \<in> {0..6}. \<exists>p. Tet_new (Some t) rnd = Inr p \<and> type p = t)
      \<longleftrightarrow> (-1 \<le> t \<and> t \<le> 6 \<and> t \<noteq> 0))
   \<and> (\<forall>rnd \<in> {0..6}. \<exists>p. Tet_new (Some 0) rnd = Inr p \<and> type p = rnd)
   \<and> (\<exists>rnd \<in> {0..6}. \<exists>p. Tet_new (Some 0) rnd = Inr p \<and> type p \<noteq> 0)"
proof -
  have new: "(\<exists>p. Tet_new ty rnd = Inr p \<and> type p = v) \<longleftrightarrow> Tet_type ty rnd = v"
    if "rnd \<in> {0..6}" for ty rnd v
    using Tet_new_type [of rnd ty] that by auto
  have a: "(\<forall>rnd \<in> {0..6}. Tet_type (Some t) rnd = t) \<longleftrightarrow> (-1 \<le> t \<and> t \<le> 6 \<and> t \<noteq> 0)"
  proof
    assume h: "\<forall>rnd \<in> {0..6}. Tet_type (Some t) rnd = t"
    show "-1 \<le> t \<and> t \<le> 6 \<and> t \<noteq> 0"
    proof (rule ccontr)
      assume n: "\<not> (-1 \<le> t \<and> t \<le> 6 \<and> t \<noteq> 0)"
      then have "Tet_type (Some t) 1 = 1" and "Tet_type (Some t) 2 = 2"
        by (auto simp: Tet_type_def)
      moreover from h have "Tet_type (Some t) 1 = t" and "Tet_type (Some t) 2 = t"
        by simp_all
      ultimately show False by simp
    qed
  next
    assume "-1 \<le> t \<and> t \<le> 6 \<and> t \<noteq> 0"
    then show "\<forall>rnd \<in> {0..6}. Tet_type (Some t) rnd = t"
      by (simp add: Tet_type_def)
  qed
  have b: "\<forall>rnd \<in> {0..6}. Tet_type (Some 0) rnd = rnd"
    by (simp add: Tet_type_def)
  have "Tet_type (Some 0) 4 = 4"
    by (simp add: Tet_type_def)
  then have "\<exists>p. Tet_new (Some 0) 4 = Inr p \<and> type p = 4"
    using new [of 4 "Some 0" 4] by simp
  then have c: "\<exists>rnd \<in> {0..6}. \<exists>p. Tet_new (Some 0) rnd = Inr p \<and> type p \<noteq> 0"
    by (intro bexI [of _ 4]) auto
  show ?thesis using a b c new by simp
qed

theorem Tet_type_requested_witness:
  "(\<exists>p. Tet_new (Some 5) 2 = Inr p \<and> type p = 5) \<and> (\<exists>p. Tet_new (Some 0) 4 = Inr p \<and> type p = 4)"
  using Tet_type_requested [of 5] by simp

subsection \<open>The perimeter matcher\<close>

lemma colLoop_iff:
  "colLoop srow crow cols \<longleftrightarrow>
     cols \<noteq> [] \<and> (length srow \<noteq> length crow \<or> (\<exists>col \<in> set cols. srow ! col \<noteq> crow ! col))"
  by (induction cols) auto

lemma rowLoop_iff:
  "rowLoop s c rows \<longleftrightarrow>
     rows \<noteq> [] \<and> (length s \<noteq> length c \<or>
       (\<exists>row \<in> set rows. colLoop (s ! row) (c ! row) [0..<length (s ! row)]))"
  by (induction rows) auto

lemma colLoop_exact:
  assumes "x \<noteq> []"
  shows "\<not> colLoop x y [0..<length x] \<longleftrightarrow> x = y"
proof -
  have "[0..<length x] \<noteq> []" using assms by simp
  then show ?thesis
    unfolding colLoop_iff list_eq_iff_nth_eq [of x y] by auto
qed

lemma rowLoop_exact:
  assumes "s \<noteq> []" and "[] \<notin> set s"
  shows "\<not> rowLoop s c [0..<length s] \<longleftrightarrow> s = c"
proof -
  have col: "\<not> colLoop (s ! i) (c ! i) [0..<length (s ! i)] \<longleftrightarrow> s ! i = c ! i"
    if "i < length s" for i
    using assms(2) that by (intro colLoop_exact) (metis nth_mem)
  have "[0..<length s] \<noteq> []" using assms(1) by simp
  then show ?thesis
    unfolding rowLoop_iff list_eq_iff_nth_eq [of s c] using col by auto
qed

lemma perimScan_find:
  assumes "s \<noteq> []" and "[] \<notin> set s"
  shows "perimScan es s = (case find (\<lambda>e. fst e = s) es of None \<Rightarrow> [] | Some e \<Rightarrow> snd e)"
  using rowLoop_exact [OF assms] by (induction es) auto

text \<open>
  C3, as the source has it. The cells are compared with \<^verbatim>\<open>===\<close>: a shape with at
  least one row and no row of length 0 matches an entry exactly when it is equal to the
  entry's shape, cell by cell. The perimeter of the first such entry is returned, and the
  empty perimeter when there is none.
\<close>

theorem getPerim_exact_match:
  assumes "s \<noteq> []" and "[] \<notin> set s"
  shows "getPerim s = (case find (\<lambda>e. fst e = s) periMatrix of None \<Rightarrow> [] | Some e \<Rightarrow> snd e)"
  unfolding getPerim_def by (rule perimScan_find [OF assms])

theorem getPerim_exact_match_witness:
  "getPerim [[1,1],[0,1]] = [[0,0],[0,1],[1,1],[1,2],[2,2],[2,0]]"
  using getPerim_exact_match [of "[[1,1],[0,1]]"] by (simp add: periMatrix_def)

text \<open>
  C3, as the claim states it, fails: the shape \<open>[[2]]\<close> agrees with the entry \<open>[[1]]\<close> on
  row count, row lengths and on which cells are zero, yet \<^verbatim>\<open>getPerim\<close> finds no
  entry for it.
\<close>

theorem getPerim_colour_counterexample:
  "specMatches [[2]] [[1]] \<and> getPerim [[2]] = [] \<and> getPerim [[2]] \<noteq> specGetPerim [[2]]"
  by (simp add: specMatches_def getPerim_def specGetPerim_def periMatrix_def)

text \<open>
  The two tests that sit inside the loop bodies are skipped for a shape with no rows and
  for a row of length 0: both match the first entry.
\<close>

lemma getPerim_no_rows: "getPerim [] = [[0,0],[0,1],[1,1],[1,0]]"
  by (simp add: getPerim_def periMatrix_def)

lemma getPerim_empty_row: "getPerim [[]] = [[0,0],[0,1],[1,1],[1,0]]"
  by (simp add: getPerim_def periMatrix_def)

subsection \<open>High scores\<close>

lemma insertScore_takeWhile:
  "insertScore sc hs =
     (if \<exists>h \<in> set hs. sc > h
      then takeWhile (\<lambda>h. \<not> sc > h) hs @ sc # dropWhile (\<lambda>h. \<not> sc > h) hs
      else hs)"
  by (induction hs) auto

lemma length_insertScore:
  "length (insertScore sc hs) = (if \<exists>h \<in> set hs. sc > h then Suc (length hs) else length hs)"
  by (induction hs) auto

lemma truncated_insert:
  "(let hs1 = insertScore sc hs in if length hs1 > length hs then butlast hs1 else hs1)
     = take (length hs) (takeWhile (\<lambda>h. \<not> sc > h) hs @ sc # dropWhile (\<lambda>h. \<not> sc > h) hs)"
proof (cases "\<exists>h \<in> set hs. sc > h")
  case True
  let ?ins = "takeWhile (\<lambda>h. \<not> sc > h) hs @ sc # dropWhile (\<lambda>h. \<not> sc > h) hs"
  have eq: "insertScore sc hs = ?ins" using True by (simp add: insertScore_takeWhile)
  have len: "length ?ins = Suc (length hs)"
    using length_insertScore [of sc hs] True eq by simp
  have "butlast ?ins = take (length hs) ?ins"
    using len by (simp add: butlast_conv_take)
  then show ?thesis using eq len by (simp add: Let_def)
next
  case False
  then have all: "\<forall>h \<in> set hs. \<not> sc > h" by blast
  then have tw: "takeWhile (\<lambda>h. \<not> sc > h) hs = hs"
    by (simp add: takeWhile_eq_all_conv)
  have ins: "insertScore sc hs = hs" using False by (simp add: insertScore_takeWhile)
  have "take (length hs) (hs @ sc # dropWhile (\<lambda>h. \<not> sc > h) hs) = hs" by simp
  then have "take (length hs) (takeWhile (\<lambda>h. \<not> sc > h) hs @ sc # dropWhile (\<lambda>h. \<not> sc > h) hs) = hs"
    by (simp only: tw)
  then show ?thesis by (simp add: ins Let_def)
qed

text \<open>
  C7. With the flag \<^verbatim>\<open>updateScore\<close> set and a stored list of length 10 in descending
  order, \<^verbatim>\<open>checkHighScore\<close> returns (and stores) a list of length 10: the score put
  before the first entry strictly below it, cut back to 10 entries. A score equal to the
  lowest entry leaves the list as it is.
\<close>

theorem checkHighScore_bounded:
  assumes len: "length hs = 10" and desc: "sorted_wrt (\<lambda>x y. x \<ge> y) hs"
  shows "\<exists>r. checkHighScore True sc (Some hs) = (r, False, Some r)
    \<and> length r = 10
    \<and> r = take 10 (takeWhile (\<lambda>h. \<not> sc > h) hs @ sc # dropWhile (\<lambda>h. \<not> sc > h) hs)
    \<and> (sc = last hs \<longrightarrow> r = hs)"
proof -
  let ?r = "take (length hs) (takeWhile (\<lambda>h. \<not> sc > h) hs @ sc # dropWhile (\<lambda>h. \<not> sc > h) hs)"
  have run: "checkHighScore True sc (Some hs) = (?r, False, Some ?r)"
    using truncated_insert [of sc hs]
    by (simp add: checkHighScore_def getHighScores_def Let_def)
  have "length (takeWhile (\<lambda>h. \<not> sc > h) hs @ sc # dropWhile (\<lambda>h. \<not> sc > h) hs) = Suc (length hs)"
    using length_append [of "takeWhile (\<lambda>h. \<not> sc > h) hs" "dropWhile (\<lambda>h. \<not> sc > h) hs"]
    by simp
  then have l: "length ?r = 10" using len by simp
  have low: "?r = hs" if "sc = last hs"
  proof -
    have "hs \<noteq> []" using len by auto
    have "\<forall>h \<in> set hs. h \<ge> last hs"
    proof
      fix h assume "h \<in> set hs"
      then obtain i where i: "i < length hs" "hs ! i = h" by (auto simp: in_set_conv_nth)
      show "h \<ge> last hs"
      proof (cases "i = length hs - 1")
        case True
        then show ?thesis using i \<open>hs \<noteq> []\<close> by (simp add: last_conv_nth)
      next
        case False
        then have "i < length hs - 1" using i by simp
        then have "hs ! i \<ge> hs ! (length hs - 1)"
          using sorted_wrt_nth_less [OF desc, of i "length hs - 1"] \<open>hs \<noteq> []\<close> by simp
        then show ?thesis using i \<open>hs \<noteq> []\<close> by (simp add: last_conv_nth)
      qed
    qed
    then have "\<forall>h \<in> set hs. \<not> sc > h" using that by auto
    then have tw: "takeWhile (\<lambda>h. \<not> sc > h) hs = hs" by (simp add: takeWhile_eq_all_conv)
    have "take (length hs) (hs @ sc # dropWhile (\<lambda>h. \<not> sc > h) hs) = hs" by simp
    then show ?thesis by (simp only: tw)
  qed
  show ?thesis using run l low len by auto
qed

theorem checkHighScore_bounded_witness:
  "checkHighScore True 10 (Some [100, 90, 80, 70, 60, 50, 40, 30, 20, 10])
     = ([100, 90, 80, 70, 60, 50, 40, 30, 20, 10], False, Some [100, 90, 80, 70, 60, 50, 40, 30, 20, 10])"
  using checkHighScore_bounded [of "[100, 90, 80, 70, 60, 50, 40, 30, 20, 10]" 10]
  by simp

lemma checkHighScore_insert_example:
  "checkHighScore True 55 (Some [100, 90, 80, 70, 60, 50, 40, 30, 20, 10])
     = ([100, 90, 80, 70, 60, 55, 50, 40, 30, 20], False, Some [100, 90, 80, 70, 60, 55, 50, 40, 30, 20])"
  by (simp add: checkHighScore_def getHighScores_def Let_def)

subsection \<open>The score formula\<close>

lemma root_two_bound: "(107 / 100 :: real) < 2 powr (1 / 10)"
proof -
  have "(107 :: real) ^ 10 < 2 * 100 ^ 10" by simp
  then have lt: "(107 / 100 :: real) ^ 10 < 2" by (simp add: power_divide)
  have p: "(107 / 100 :: real) powr 10 = (107 / 100) ^ 10"
    by (rule powr_numeral) simp
  have "((107 / 100 :: real) powr 10) powr (1 / 10) < 2 powr (1 / 10)"
    by (rule powr_less_mono2) (simp_all only: p lt, simp_all)
  moreover have "((107 / 100 :: real) powr 10) powr (1 / 10) = (107 / 100) powr (10 * (1 / 10))"
    by (simp only: powr_powr)
  moreover have "(107 / 100 :: real) powr (10 * (1 / 10)) = 107 / 100"
    by simp
  ultimately show ?thesis by simp
qed

lemma rowScore_one: "rowScore 1 = 10000"
  by (simp add: rowScore_def)

lemma rowScore_margin:
  assumes "2 \<le> n"
  shows "real n * 10000 * (107 / 100) < rowScore n"
proof -
  have n: "(2::real) \<le> real n" using assms by simp
  have e: "(1 / 10 :: real) \<le> (real n - 1) * (1 / 10)" using n by simp
  have "2 powr (1 / 10) \<le> real n powr (1 / 10)"
    using n by (intro powr_mono2) simp_all
  also have "\<dots> \<le> real n powr ((real n - 1) * (1 / 10))"
    using n e by (intro powr_mono) simp_all
  finally have "107 / 100 < real n powr ((real n - 1) * (1 / 10))"
    using root_two_bound by simp
  moreover have "real n powr (1 + (real n - 1) * (1 / 10)) = real n * real n powr ((real n - 1) * (1 / 10))"
    using n by (simp add: powr_add)
  ultimately show ?thesis
    using n by (simp add: rowScore_def)
qed

text \<open>
  For \<open>n\<close> in \<open>{2, 3, 4}\<close> the amount for \<open>n\<close> rows is strictly above \<open>n\<close> times the
  amount for one row. The margin is above 7 percent, so the inequality also holds for every
  value within one percent of the exact one.
\<close>

lemma rowScore_more:
  assumes "n \<in> {2, 3, 4}"
  shows "real n * rowScore 1 < rowScore n
    \<and> (\<forall>v. \<bar>v - rowScore n\<bar> \<le> rowScore n / 100 \<longrightarrow> real n * rowScore 1 < v)"
proof -
  have n: "2 \<le> n" using assms by auto
  have m: "real n * 10000 * (107 / 100) < rowScore n" by (rule rowScore_margin [OF n])
  have pos: "0 < real n" using n by simp
  have a: "real n * 10000 < rowScore n"
  proof -
    have "real n * 10000 \<le> real n * 10000 * (107 / 100)" using pos by simp
    then show ?thesis using m by simp
  qed
  have b: "real n * 10000 < v" if "\<bar>v - rowScore n\<bar> \<le> rowScore n / 100" for v
  proof -
    have "- (v - rowScore n) \<le> rowScore n / 100" by (rule abs_le_D2 [OF that])
    then have "rowScore n * (99 / 100) \<le> v" by linarith
    moreover have "real n * 10000 * (107 / 100) * (99 / 100) < rowScore n * (99 / 100)"
      using m by simp
    moreover have "real n * 10000 \<le> real n * 10000 * (107 / 100) * (99 / 100)"
      using pos by simp
    ultimately show ?thesis by linarith
  qed
  show ?thesis using a b rowScore_one by simp
qed

subsection \<open>Normalisation: \<^verbatim>\<open>cleanShape\<close>\<close>

lemma stripLeft_occupied:
  assumes "stripLeft sh col = Some y"
  shows "firstColOccupied (fst y)"
  by (rule stripLeft.raw_induct [OF _ assms, where P = "\<lambda>_ _ y. firstColOccupied (fst y)"])
     (auto split: if_splits)

lemma stripLeft_done: "firstColOccupied sh \<Longrightarrow> stripLeft sh col = Some (sh, col)"
  by (subst stripLeft.simps) simp

lemma stripRight_idem: "stripRight (stripRight r) = stripRight r"
  by (simp add: stripRight_def)

lemma stripRight_Cons: "x \<noteq> 0 \<Longrightarrow> stripRight (x # xs) = x # stripRight xs"
  by (simp add: stripRight_def dropWhile_append)

lemma firstColOccupied_iff:
  "firstColOccupied sh \<longleftrightarrow> (\<exists>x xs. x # xs \<in> set sh \<and> 0 < x)"
proof
  assume "firstColOccupied sh"
  then obtain r where rs: "r \<in> set sh" and c: "case r of [] \<Rightarrow> False | x # _ \<Rightarrow> x > 0"
    unfolding firstColOccupied_def list_ex_iff by blast
  show "\<exists>x xs. x # xs \<in> set sh \<and> 0 < x"
  proof (cases r)
    case Nil
    then show ?thesis using c by simp
  next
    case (Cons x xs)
    then show ?thesis using c rs by auto
  qed
next
  assume "\<exists>x xs. x # xs \<in> set sh \<and> 0 < x"
  then obtain x xs where "x # xs \<in> set sh" "0 < x" by blast
  then show "firstColOccupied sh"
    unfolding firstColOccupied_def list_ex_iff by (intro bexI [of _ "x # xs"]) simp_all
qed

lemma firstColOccupied_stripRight:
  "firstColOccupied sh \<Longrightarrow> firstColOccupied (map stripRight sh)"
proof -
  assume "firstColOccupied sh"
  then obtain x xs where r: "x # xs \<in> set sh" "0 < x"
    unfolding firstColOccupied_iff by blast
  then have "stripRight (x # xs) = x # stripRight xs"
    by (simp add: stripRight_Cons)
  then have "x # stripRight xs \<in> set (map stripRight sh)"
    using r(1) by (metis image_eqI set_map)
  then show ?thesis
    using r(2) unfolding firstColOccupied_iff by blast
qed

lemma stripRight_fixed: "r = [] \<or> last r \<noteq> 0 \<Longrightarrow> stripRight r = r"
  by (cases r rule: rev_cases) (auto simp: stripRight_def)

text \<open>
  C8. \<^verbatim>\<open>cleanShape\<close> is idempotent: whenever it returns, a second call on its result
  returns that result again, shape and position alike. An input that is already in normal
  form, with no negative cell, is returned as it is.
\<close>

theorem cleanShape_idempotent:
  "(cleanShape rep = Some rep' \<longrightarrow> cleanShape rep' = Some rep') \<and>
   (specNormalized (fst rep) \<and> (\<forall>r \<in> set (fst rep). \<forall>x \<in> set r. 0 \<le> x)
      \<longrightarrow> cleanShape rep = Some rep)"
proof (intro conjI impI)
  assume a: "cleanShape rep = Some rep'"
  then obtain sh col where s: "stripLeft (fst rep) (snd (snd rep)) = Some (sh, col)"
    and r: "rep' = (map stripRight sh, (fst (snd rep), col))"
    by (auto simp: cleanShape_def split: option.splits)
  have "firstColOccupied (map stripRight sh)"
    using stripLeft_occupied [OF s] by (simp add: firstColOccupied_stripRight)
  then have "stripLeft (map stripRight sh) col = Some (map stripRight sh, col)"
    by (rule stripLeft_done)
  then show "cleanShape rep' = Some rep'"
    by (simp add: cleanShape_def r stripRight_idem)
next
  assume n: "specNormalized (fst rep) \<and> (\<forall>r \<in> set (fst rep). \<forall>x \<in> set r. 0 \<le> x)"
  then obtain r where r: "r \<in> set (fst rep)" "r \<noteq> []" "hd r \<noteq> 0"
    by (auto simp: specNormalized_def)
  then have "hd r \<in> set r" by simp
  then have "0 < hd r" using n r by fastforce
  moreover obtain x xs where "r = x # xs" using r(2) by (cases r) auto
  ultimately have "firstColOccupied (fst rep)"
    using r(1) unfolding firstColOccupied_iff by auto
  then have "stripLeft (fst rep) (snd (snd rep)) = Some (fst rep, snd (snd rep))"
    by (rule stripLeft_done)
  moreover have "map stripRight (fst rep) = fst rep"
    using n by (intro map_idI stripRight_fixed) (auto simp: specNormalized_def)
  ultimately show "cleanShape rep = Some rep"
    by (simp add: cleanShape_def)
qed

theorem cleanShape_idempotent_witness:
  "cleanShape ([[0,0,1,0],[0,1,1,0]], (3,4)) = Some ([[0,1],[1,1]], (3,5))
   \<and> cleanShape ([[0,1],[1,1]], (3,5)) = Some ([[0,1],[1,1]], (3,5))"
proof -
  have a: "cleanShape ([[0,0,1,0],[0,1,1,0]], (3,4)) = Some ([[0,1],[1,1]], (3,5))"
    by code_simp
  show ?thesis
    using a cleanShape_idempotent [of "([[0,0,1,0],[0,1,1,0]], (3,4))" "([[0,1],[1,1]], (3,5))"]
    by simp
qed

subsection \<open>Occupied cells\<close>

lemma shapeCells_iff:
  "(i, j) \<in> set (shapeCells sh) \<longleftrightarrow> i < length sh \<and> j < length (sh ! i) \<and> sh ! i ! j \<noteq> 0"
  by (auto simp: shapeCells_def)

lemma occupied_iff:
  "(a, b) \<in> occupied sh pos \<longleftrightarrow>
     (\<exists>i j. i < length sh \<and> j < length (sh ! i) \<and> sh ! i ! j \<noteq> 0
        \<and> a = fst pos + int i \<and> b = snd pos + int j)"
proof -
  have "(a, b) \<in> occupied sh pos \<longleftrightarrow>
      (\<exists>i j. (i, j) \<in> set (shapeCells sh) \<and> a = fst pos + int i \<and> b = snd pos + int j)"
    unfolding occupied_def by force
  then show ?thesis by (simp add: shapeCells_iff)
qed

lemma occupied_Nil: "occupied [] pos = {}"
  by (simp add: occupied_def shapeCells_def)

lemma occupied_Cons:
  "occupied (r # rs) (a, c) = occupied [r] (a, c) \<union> occupied rs (a + 1, c)"
proof (rule set_eqI, clarify)
  fix x y
  show "(x, y) \<in> occupied (r # rs) (a, c) \<longleftrightarrow> (x, y) \<in> occupied [r] (a, c) \<union> occupied rs (a + 1, c)"
  proof
    assume "(x, y) \<in> occupied (r # rs) (a, c)"
    then obtain i j where h: "i < length (r # rs)" "j < length ((r # rs) ! i)" "(r # rs) ! i ! j \<noteq> 0"
      "x = a + int i" "y = c + int j"
      unfolding occupied_iff by auto
    show "(x, y) \<in> occupied [r] (a, c) \<union> occupied rs (a + 1, c)"
    proof (cases i)
      case 0
      then have "(x, y) \<in> occupied [r] (a, c)"
        using h unfolding occupied_iff by (intro exI [of _ 0] exI [of _ j]) simp
      then show ?thesis by simp
    next
      case (Suc k)
      then have "(x, y) \<in> occupied rs (a + 1, c)"
        using h unfolding occupied_iff by (intro exI [of _ k] exI [of _ j]) simp
      then show ?thesis by simp
    qed
  next
    assume "(x, y) \<in> occupied [r] (a, c) \<union> occupied rs (a + 1, c)"
    then show "(x, y) \<in> occupied (r # rs) (a, c)"
    proof
      assume "(x, y) \<in> occupied [r] (a, c)"
      then obtain j where "j < length r" "r ! j \<noteq> 0" "x = a" "y = c + int j"
        unfolding occupied_iff by auto
      then show ?thesis
        unfolding occupied_iff by (intro exI [of _ 0] exI [of _ j]) simp
    next
      assume "(x, y) \<in> occupied rs (a + 1, c)"
      then obtain i j where "i < length rs" "j < length (rs ! i)" "rs ! i ! j \<noteq> 0"
        "x = a + 1 + int i" "y = c + int j"
        unfolding occupied_iff by auto
      then show ?thesis
        unfolding occupied_iff by (intro exI [of _ "Suc i"] exI [of _ j]) simp
    qed
  qed
qed

lemma occupied_append:
  "occupied (xs @ ys) (a, c) = occupied xs (a, c) \<union> occupied ys (a + int (length xs), c)"
proof (induction xs arbitrary: a)
  case Nil
  then show ?case by (simp add: occupied_Nil)
next
  case (Cons x xs)
  have "occupied ((x # xs) @ ys) (a, c) = occupied [x] (a, c) \<union> occupied (xs @ ys) (a + 1, c)"
    using occupied_Cons [of x "xs @ ys" a c] by simp
  also have "\<dots> = occupied [x] (a, c) \<union> (occupied xs (a + 1, c) \<union> occupied ys (a + 1 + int (length xs), c))"
    by (simp only: Cons.IH)
  also have "\<dots> = occupied (x # xs) (a, c) \<union> occupied ys (a + int (length (x # xs)), c)"
    using occupied_Cons [of x xs a c] by (simp add: Un_assoc ac_simps)
  finally show ?case .
qed

lemma occupied_row:
  "occupied [r] (a, c) = (\<lambda>j. (a, c + int j)) ` {j. j < length r \<and> r ! j \<noteq> 0}"
proof (rule set_eqI, clarify)
  fix x y
  show "(x, y) \<in> occupied [r] (a, c) \<longleftrightarrow> (x, y) \<in> (\<lambda>j. (a, c + int j)) ` {j. j < length r \<and> r ! j \<noteq> 0}"
    unfolding occupied_iff by (auto simp: image_iff)
qed

lemma occupied_zero_row: "\<forall>x \<in> set r. x = 0 \<Longrightarrow> occupied [r] pos = {}"
  by (cases pos) (auto simp: occupied_row)

lemma stripRight_split:
  "\<exists>zs. r = stripRight r @ zs \<and> (\<forall>z \<in> set zs. z = 0)"
proof -
  let ?P = "\<lambda>x::int. x = 0"
  have "rev (takeWhile ?P (rev r) @ dropWhile ?P (rev r)) = r"
    by (simp only: takeWhile_dropWhile_id rev_rev_ident)
  then have "r = stripRight r @ rev (takeWhile ?P (rev r))"
    by (simp only: rev_append stripRight_def)
  moreover have "\<forall>z \<in> set (rev (takeWhile ?P (rev r))). z = 0"
    using set_takeWhileD [of _ ?P "rev r"] by auto
  ultimately show ?thesis by blast
qed

lemma occupied_row_stripRight: "occupied [stripRight r] (a, c) = occupied [r] (a, c)"
proof -
  obtain zs where r: "r = stripRight r @ zs" and z: "\<forall>z \<in> set zs. z = 0"
    using stripRight_split by blast
  have "{j. j < length r \<and> r ! j \<noteq> 0} = {j. j < length (stripRight r) \<and> stripRight r ! j \<noteq> 0}"
  proof (rule set_eqI)
    fix j
    have "r ! j = (stripRight r @ zs) ! j" using r by simp
    moreover have "length r = length (stripRight r) + length zs"
      using arg_cong [OF r, of length] by simp
    ultimately show "j \<in> {j. j < length r \<and> r ! j \<noteq> 0} \<longleftrightarrow> j \<in> {j. j < length (stripRight r) \<and> stripRight r ! j \<noteq> 0}"
      using z by (auto simp: nth_append)
  qed
  then show ?thesis by (simp add: occupied_row)
qed

lemma occupied_stripRight: "occupied (map stripRight sh) pos = occupied sh pos"
proof (induction sh arbitrary: pos)
  case Nil
  then show ?case by simp
next
  case (Cons r sh)
  obtain a c where p: "pos = (a, c)" by (cases pos)
  show ?case
    using occupied_Cons [of "stripRight r" "map stripRight sh" a c] occupied_Cons [of r sh a c]
    by (simp add: p Cons.IH occupied_row_stripRight)
qed

lemma occupied_row_drop1:
  assumes "r = [] \<or> hd r = 0"
  shows "occupied [drop 1 r] (a, c + 1) = occupied [r] (a, c)"
proof (cases r)
  case Nil
  then show ?thesis by (simp add: occupied_row)
next
  case (Cons x xs)
  then have x: "x = 0" using assms by simp
  have "(\<lambda>j. (a, c + 1 + int j)) ` {j. j < length xs \<and> xs ! j \<noteq> 0}
      = (\<lambda>j. (a, c + int j)) ` {j. j < length (x # xs) \<and> (x # xs) ! j \<noteq> 0}"
  proof (rule set_eqI, clarify)
    fix u v
    show "(u, v) \<in> (\<lambda>j. (a, c + 1 + int j)) ` {j. j < length xs \<and> xs ! j \<noteq> 0}
       \<longleftrightarrow> (u, v) \<in> (\<lambda>j. (a, c + int j)) ` {j. j < length (x # xs) \<and> (x # xs) ! j \<noteq> 0}"
    proof
      assume "(u, v) \<in> (\<lambda>j. (a, c + 1 + int j)) ` {j. j < length xs \<and> xs ! j \<noteq> 0}"
      then obtain j where "j < length xs" "xs ! j \<noteq> 0" "u = a" "v = c + 1 + int j" by auto
      then show "(u, v) \<in> (\<lambda>j. (a, c + int j)) ` {j. j < length (x # xs) \<and> (x # xs) ! j \<noteq> 0}"
        by (intro image_eqI [of _ _ "Suc j"]) simp_all
    next
      assume "(u, v) \<in> (\<lambda>j. (a, c + int j)) ` {j. j < length (x # xs) \<and> (x # xs) ! j \<noteq> 0}"
      then obtain j where j: "j < length (x # xs)" "(x # xs) ! j \<noteq> 0" "u = a" "v = c + int j" by auto
      then obtain k where "j = Suc k" using x by (cases j) auto
      then show "(u, v) \<in> (\<lambda>j. (a, c + 1 + int j)) ` {j. j < length xs \<and> xs ! j \<noteq> 0}"
        using j by (intro image_eqI [of _ _ k]) simp_all
    qed
  qed
  then show ?thesis by (simp add: occupied_row Cons)
qed

lemma occupied_drop1:
  assumes "\<forall>r \<in> set sh. r = [] \<or> hd r = 0"
  shows "occupied (map (drop 1) sh) (a, c + 1) = occupied sh (a, c)"
  using assms
proof (induction sh arbitrary: a)
  case Nil
  then show ?case by (simp add: occupied_Nil)
next
  case (Cons r sh)
  then have r: "r = [] \<or> hd r = 0" and rest: "\<forall>r \<in> set sh. r = [] \<or> hd r = 0" by simp_all
  show ?case
    using occupied_Cons [of "drop 1 r" "map (drop 1) sh" a "c + 1"] occupied_Cons [of r sh a c]
      occupied_row_drop1 [OF r, of a c] Cons.IH [OF rest, of "a + 1"]
    by simp
qed

lemma not_firstColOccupied:
  assumes "\<not> firstColOccupied sh" and "nonnegCells sh"
  shows "\<forall>r \<in> set sh. r = [] \<or> hd r = 0"
proof
  fix r assume r: "r \<in> set sh"
  show "r = [] \<or> hd r = 0"
  proof (cases r)
    case Nil
    then show ?thesis by simp
  next
    case (Cons x xs)
    then have "\<not> 0 < x" using assms(1) r unfolding firstColOccupied_iff by blast
    moreover have "0 \<le> x" using assms(2) r Cons unfolding nonnegCells_def by auto
    ultimately show ?thesis using Cons by simp
  qed
qed

lemma nonnegCells_drop: "nonnegCells sh \<Longrightarrow> nonnegCells (map (drop n) sh)"
  unfolding nonnegCells_def by (auto dest: in_set_dropD)

lemma stripLeft_occupied_cells:
  assumes "stripLeft sh col = Some y"
  shows "nonnegCells sh \<longrightarrow> (\<forall>a. occupied (fst y) (a, snd y) = occupied sh (a, col))"
proof (rule stripLeft.raw_induct [OF _ assms,
      where P = "\<lambda>sh col y. nonnegCells sh \<longrightarrow> (\<forall>a. occupied (fst y) (a, snd y) = occupied sh (a, col))"])
  fix f sh col y
  assume ih: "\<And>sh col y. f sh col = Some y \<Longrightarrow>
      nonnegCells sh \<longrightarrow> (\<forall>a. occupied (fst y) (a, snd y) = occupied sh (a, col))"
    and step: "(if firstColOccupied sh then Some (sh, col) else f (map (drop 1) sh) (col + 1)) = Some y"
  show "nonnegCells sh \<longrightarrow> (\<forall>a. occupied (fst y) (a, snd y) = occupied sh (a, col))"
  proof (cases "firstColOccupied sh")
    case True
    then show ?thesis using step by auto
  next
    case False
    then have f: "f (map (drop 1) sh) (col + 1) = Some y" using step by simp
    show ?thesis
    proof (intro impI allI)
      fix a assume nn: "nonnegCells sh"
      have "occupied (fst y) (a, snd y) = occupied (map (drop 1) sh) (a, col + 1)"
        using ih [OF f] nonnegCells_drop [OF nn] by simp
      also have "\<dots> = occupied sh (a, col)"
        by (rule occupied_drop1 [OF not_firstColOccupied [OF False nn]])
      finally show "occupied (fst y) (a, snd y) = occupied sh (a, col)" .
    qed
  qed
qed

lemma cleanShape_occupied:
  assumes "cleanShape rep = Some rep'" and "nonnegCells (fst rep)"
  shows "occupied (fst rep') (snd rep') = occupied (fst rep) (snd rep)"
proof -
  obtain sh col where s: "stripLeft (fst rep) (snd (snd rep)) = Some (sh, col)"
    and r: "rep' = (map stripRight sh, (fst (snd rep), col))"
    using assms(1) by (auto simp: cleanShape_def split: option.splits)
  have "occupied sh (fst (snd rep), col) = occupied (fst rep) (fst (snd rep), snd (snd rep))"
    using stripLeft_occupied_cells [OF s] assms(2) by simp
  then show ?thesis by (simp add: r occupied_stripRight)
qed

subsection \<open>Fragmentation: \<^verbatim>\<open>updateTet\<close>\<close>

lemma stripLeft_terminates:
  "\<exists>r \<in> set sh. n < length r \<and> 0 < r ! n \<Longrightarrow> \<exists>y. stripLeft sh col = Some y"
proof (induction n arbitrary: sh col)
  case 0
  then obtain r where r: "r \<in> set sh" "0 < length r" "0 < r ! 0" by blast
  obtain x xs where "r = x # xs"
    using r(2) by (metis length_greater_0_conv neq_Nil_conv)
  then have "firstColOccupied sh" using r unfolding firstColOccupied_iff by auto
  then show ?case by (simp add: stripLeft_done)
next
  case (Suc n)
  show ?case
  proof (cases "firstColOccupied sh")
    case True
    then show ?thesis by (simp add: stripLeft_done)
  next
    case False
    from Suc.prems obtain r where r: "r \<in> set sh" "Suc n < length r" "0 < r ! Suc n" by blast
    have "drop 1 r \<in> set (map (drop 1) sh)" using r(1) by simp
    moreover have "n < length (drop 1 r)" using r(2) by simp
    moreover have "0 < drop 1 r ! n" using r(2,3) by simp
    ultimately have "\<exists>y. stripLeft (map (drop 1) sh) (col + 1) = Some y"
      by (intro Suc.IH) blast
    moreover have "stripLeft sh col = stripLeft (map (drop 1) sh) (col + 1)"
      using False by (subst stripLeft.simps) simp
    ultimately show ?thesis by simp
  qed
qed

lemma cleanShape_good:
  assumes "goodRep rep"
  shows "\<exists>rep'. cleanShape rep = Some rep' \<and> occupied (fst rep') (snd rep') = occupied (fst rep) (snd rep)"
proof -
  from assms obtain r x where "r \<in> set (fst rep)" "x \<in> set r" "0 < x"
    by (auto simp: goodRep_def arrayIsAllZeros_def list_ex_iff)
  then obtain n where "r \<in> set (fst rep)" "n < length r" "0 < r ! n"
    by (auto simp: in_set_conv_nth)
  then have "\<exists>y. stripLeft (fst rep) (snd (snd rep)) = Some y"
    by (intro stripLeft_terminates [of _ n]) blast
  then obtain rep' where c: "cleanShape rep = Some rep'"
    by (auto simp: cleanShape_def)
  then show ?thesis
    using cleanShape_occupied [OF c] assms by (simp add: goodRep_def)
qed

lemma cleanAll_good:
  assumes "\<forall>rep \<in> set q. goodRep rep"
  shows "\<exists>q'. cleanAll q = Some q' \<and> length q' = length q
    \<and> (\<Union>rep \<in> set q'. occupied (fst rep) (snd rep)) = (\<Union>rep \<in> set q. occupied (fst rep) (snd rep))"
  using assms
proof (induction q)
  case Nil
  then show ?case by simp
next
  case (Cons rep q)
  then obtain q' where q: "cleanAll q = Some q'" "length q' = length q"
    "(\<Union>rep \<in> set q'. occupied (fst rep) (snd rep)) = (\<Union>rep \<in> set q. occupied (fst rep) (snd rep))"
    by auto
  from Cons.prems obtain rep' where r: "cleanShape rep = Some rep'"
    "occupied (fst rep') (snd rep') = occupied (fst rep) (snd rep)"
    using cleanShape_good [of rep] by auto
  have "cleanAll (rep # q) = Some (rep' # q')" using q(1) r(1) by simp
  then show ?case using q(2,3) r(2) by simp
qed

lemma occupied_all_zero:
  assumes "arrayIsAllZeros r" and "\<forall>x \<in> set r. 0 \<le> x"
  shows "occupied [r] p = {}"
proof -
  have "\<forall>x \<in> set r. x = 0"
    using assms by (fastforce simp: arrayIsAllZeros_def list_ex_iff)
  then show ?thesis by (rule occupied_zero_row)
qed

lemma fragLoop_cells:
  assumes "fragLoop pos rs row cur tlv q = (q', cur', tlv')"
    and "nonnegCells rs"
    and "cur \<noteq> [] \<longrightarrow> tlv = (fst pos + row - int (length cur), snd pos)"
  shows "(\<Union>rep \<in> set q'. occupied (fst rep) (snd rep)) \<union> occupied cur' tlv'
       = (\<Union>rep \<in> set q. occupied (fst rep) (snd rep)) \<union> occupied cur tlv
           \<union> occupied rs (fst pos + row, snd pos)"
  using assms
proof (induction rs arbitrary: row cur tlv q)
  case Nil
  then show ?case by (simp add: occupied_Nil)
next
  case (Cons r rs)
  have nn: "nonnegCells rs" and nr: "\<forall>x \<in> set r. 0 \<le> x"
    using Cons.prems(2) by (simp_all add: nonnegCells_def)
  have split: "occupied (r # rs) (fst pos + row, snd pos)
      = occupied [r] (fst pos + row, snd pos) \<union> occupied rs (fst pos + (row + 1), snd pos)"
    using occupied_Cons [of r rs "fst pos + row" "snd pos"] by (simp add: ac_simps)
  show ?case
  proof (cases "arrayIsAllZeros r")
    case False
    let ?tlv = "if cur = [] then (fst pos + row, snd pos) else tlv"
    have call: "fragLoop pos rs (row + 1) (cur @ [r]) ?tlv q = (q', cur', tlv')"
      using Cons.prems(1) False by simp
    have pre: "cur @ [r] \<noteq> [] \<longrightarrow> ?tlv = (fst pos + (row + 1) - int (length (cur @ [r])), snd pos)"
      using Cons.prems(3) by auto
    have ih: "(\<Union>rep \<in> set q'. occupied (fst rep) (snd rep)) \<union> occupied cur' tlv'
       = (\<Union>rep \<in> set q. occupied (fst rep) (snd rep)) \<union> occupied (cur @ [r]) ?tlv
           \<union> occupied rs (fst pos + (row + 1), snd pos)"
      by (rule Cons.IH [OF call nn pre])
    have "occupied (cur @ [r]) ?tlv = occupied cur tlv \<union> occupied [r] (fst pos + row, snd pos)"
    proof (cases "cur = []")
      case True
      then show ?thesis by (simp add: occupied_Nil)
    next
      case False
      then have t: "tlv = (fst pos + row - int (length cur), snd pos)" using Cons.prems(3) by simp
      show ?thesis
        using occupied_append [of cur "[r]" "fst pos + row - int (length cur)" "snd pos"] False
        by (simp add: t)
    qed
    then show ?thesis using ih split by (simp add: Un_assoc)
  next
    case True
    have zero: "occupied [r] (fst pos + row, snd pos) = {}"
      by (rule occupied_all_zero [OF True nr])
    show ?thesis
    proof (cases "cur = []")
      case c: True
      have call: "fragLoop pos rs (row + 1) cur tlv q = (q', cur', tlv')"
        using Cons.prems(1) True c by simp
      have "(\<Union>rep \<in> set q'. occupied (fst rep) (snd rep)) \<union> occupied cur' tlv'
       = (\<Union>rep \<in> set q. occupied (fst rep) (snd rep)) \<union> occupied cur tlv
           \<union> occupied rs (fst pos + (row + 1), snd pos)"
        by (rule Cons.IH [OF call nn]) (simp add: c)
      then show ?thesis using split zero by simp
    next
      case c: False
      have call: "fragLoop pos rs (row + 1) [] tlv (q @ [(cur, tlv)]) = (q', cur', tlv')"
        using Cons.prems(1) True c by simp
      have "(\<Union>rep \<in> set q'. occupied (fst rep) (snd rep)) \<union> occupied cur' tlv'
       = (\<Union>rep \<in> set (q @ [(cur, tlv)]). occupied (fst rep) (snd rep)) \<union> occupied [] tlv
           \<union> occupied rs (fst pos + (row + 1), snd pos)"
        by (rule Cons.IH [OF call nn]) simp
      then show ?thesis using split zero by (simp add: occupied_Nil Un_ac)
    qed
  qed
qed

lemma fragLoop_good:
  assumes "fragLoop pos rs row cur tlv q = (q', cur', tlv')"
    and "nonnegCells rs"
    and "\<forall>rep \<in> set q. goodRep rep"
    and "nonnegCells cur" and "\<forall>r \<in> set cur. \<not> arrayIsAllZeros r"
  shows "(\<forall>rep \<in> set q'. goodRep rep) \<and> nonnegCells cur' \<and> (\<forall>r \<in> set cur'. \<not> arrayIsAllZeros r)"
  using assms
proof (induction rs arbitrary: row cur tlv q)
  case Nil
  then show ?case by simp
next
  case (Cons r rs)
  have nn: "nonnegCells rs" and nr: "\<forall>x \<in> set r. 0 \<le> x"
    using Cons.prems(2) by (simp_all add: nonnegCells_def)
  show ?case
  proof (cases "arrayIsAllZeros r")
    case False
    have call: "fragLoop pos rs (row + 1) (cur @ [r])
        (if cur = [] then (fst pos + row, snd pos) else tlv) q = (q', cur', tlv')"
      using Cons.prems(1) False by simp
    show ?thesis
    proof (rule Cons.IH [OF call nn Cons.prems(3)])
      show "nonnegCells (cur @ [r])" using Cons.prems(4) nr by (auto simp: nonnegCells_def)
      show "\<forall>r \<in> set (cur @ [r]). \<not> arrayIsAllZeros r" using Cons.prems(5) False by auto
    qed
  next
    case True
    show ?thesis
    proof (cases "cur = []")
      case c: True
      have call: "fragLoop pos rs (row + 1) cur tlv q = (q', cur', tlv')"
        using Cons.prems(1) True c by simp
      show ?thesis by (rule Cons.IH [OF call nn Cons.prems(3,4,5)])
    next
      case c: False
      have call: "fragLoop pos rs (row + 1) [] tlv (q @ [(cur, tlv)]) = (q', cur', tlv')"
        using Cons.prems(1) True c by simp
      have g: "goodRep (cur, tlv)"
        using c Cons.prems(4,5) by (cases cur) (auto simp: goodRep_def)
      show ?thesis
      proof (rule Cons.IH [OF call nn])
        show "\<forall>rep \<in> set (q @ [(cur, tlv)]). goodRep rep" using Cons.prems(3) g by auto
        show "nonnegCells []" by (simp add: nonnegCells_def)
        show "\<forall>r \<in> set []. \<not> arrayIsAllZeros r" by simp
      qed
    qed
  qed
qed

lemma fragmentQueue_cells:
  assumes "nonnegCells (shape t)"
  shows "(\<Union>rep \<in> set (fragmentQueue t). occupied (fst rep) (snd rep)) = tetCells t
    \<and> (\<forall>rep \<in> set (fragmentQueue t). goodRep rep)"
proof -
  obtain q cur tlv where f: "fragLoop (topLeft t) (shape t) 0 [] (topLeft t) [] = (q, cur, tlv)"
    by (metis prod_cases3)
  have cells: "(\<Union>rep \<in> set q. occupied (fst rep) (snd rep)) \<union> occupied cur tlv
      = occupied (shape t) (topLeft t)"
    using fragLoop_cells [OF f assms] by (simp add: occupied_Nil)
  have good: "(\<forall>rep \<in> set q. goodRep rep) \<and> nonnegCells cur \<and> (\<forall>r \<in> set cur. \<not> arrayIsAllZeros r)"
    by (rule fragLoop_good [OF f assms]) (simp_all add: nonnegCells_def)
  show ?thesis
  proof (cases "cur = []")
    case True
    then show ?thesis using f cells good by (simp add: fragmentQueue_def tetCells_def occupied_Nil)
  next
    case False
    then have "goodRep (cur, tlv)" using good by (cases cur) (auto simp: goodRep_def)
    then show ?thesis using False f cells good by (auto simp: fragmentQueue_def tetCells_def)
  qed
qed

lemma tetCells_setShape: "tetCells (setShape sh (t\<lparr>topLeft := p\<rparr>)) = occupied sh p"
  by (simp add: tetCells_def setShape_def)

lemma tetCells_fragmentTet: "tetCells (fragmentTet t r) = occupied (fst r) (snd r)"
  by (simp add: tetCells_def fragmentTet_def setShape_def)

text \<open>
  C9. For a piece with an occupied cell (and no negative cell) \<^verbatim>\<open>updateTet\<close> returns,
  does not queue the piece for removal, and the board cells occupied by the piece and the
  fragments it spawns afterwards are exactly the board cells the piece occupied before.
\<close>

theorem updateTet_preserves_cells:
  assumes "nonnegCells (shape t)" and "tetCells t \<noteq> {}"
  shows "\<exists>t' frags. updateTetPieces t = Some (t', frags, False)
    \<and> tetCells t' \<union> \<Union> (tetCells ` set frags) = tetCells t"
proof -
  have q: "(\<Union>rep \<in> set (fragmentQueue t). occupied (fst rep) (snd rep)) = tetCells t"
    and g: "\<forall>rep \<in> set (fragmentQueue t). goodRep rep"
    using fragmentQueue_cells [OF assms(1)] by simp_all
  obtain q' where c: "cleanAll (fragmentQueue t) = Some q'"
    and u: "(\<Union>rep \<in> set q'. occupied (fst rep) (snd rep)) = tetCells t"
    using cleanAll_good [OF g] q by auto
  have "q' \<noteq> []" using u assms(2) by auto
  then obtain r rs where q': "q' = r # rs" by (cases q') auto
  have run: "updateTetPieces t
      = Some (setShape (fst r) (t\<lparr>topLeft := snd r\<rparr>), map (fragmentTet t) rs, False)"
    by (simp add: updateTetPieces_def c q')
  have "tetCells (setShape (fst r) (t\<lparr>topLeft := snd r\<rparr>))
      \<union> \<Union> (tetCells ` set (map (fragmentTet t) rs)) = tetCells t"
    using u by (simp add: q' tetCells_setShape tetCells_fragmentTet)
  then show ?thesis using run by blast
qed

theorem updateTet_preserves_cells_witness:
  "\<exists>t' frags. updateTetPieces \<lparr>type = 2, rotation = 3, pivot = 0, pivotMax = 1, topLeft = (3, 4),
        shape = [[1], [0], [1, 1]], perim = []\<rparr> = Some (t', frags, False)
    \<and> tetCells t' \<union> \<Union> (tetCells ` set frags) = {(3, 4), (5, 4), (5, 5)}"
proof -
  let ?t = "\<lparr>type = 2, rotation = 3, pivot = 0, pivotMax = 1, topLeft = (3, 4),
        shape = [[1], [0], [1, 1]], perim = []\<rparr>"
  have a: "nonnegCells (shape ?t)" by (simp add: nonnegCells_def)
  have b: "tetCells ?t = {(3, 4), (5, 4), (5, 5)}"
    by (simp add: tetCells_def occupied_def shapeCells_def)
  then have "tetCells ?t \<noteq> {}" by simp
  from updateTet_preserves_cells [OF a this] b show ?thesis by simp
qed

subsection \<open>The landed array\<close>

lemma markCell_taken:
  assumes "markCell l r c = Inr l'"
  shows "length l' = length l"
    and "\<And>r' c'. 0 \<le> r' \<Longrightarrow> r' < int (length l) \<Longrightarrow>
           taken l' r' c' = (taken l r' c' \<or> (r' = r \<and> c' = c))"
proof -
  from assms have r: "0 \<le> r" "r < int (length l)"
    and l': "l' = l[nat r := (l ! nat r)(c \<mapsto> 1)]"
    by (auto simp: markCell_def split: if_splits)
  show "length l' = length l" by (simp add: l')
  fix r' c' :: int
  assume r': "0 \<le> r'" "r' < int (length l)"
  show "taken l' r' c' = (taken l r' c' \<or> (r' = r \<and> c' = c))"
  proof (cases "r' = r")
    case True
    then show ?thesis using r by (simp add: taken_def l')
  next
    case False
    then have "nat r' \<noteq> nat r" using r r' by simp
    then show ?thesis using False by (simp add: taken_def l')
  qed
qed

lemma markCells_taken:
  assumes "markCells l pos cells = Inr l'"
  shows "length l' = length l \<and> (\<forall>r' c'. 0 \<le> r' \<and> r' < int (length l) \<longrightarrow>
           taken l' r' c' = (taken l r' c' \<or>
             (r', c') \<in> (\<lambda>(row, col). (fst pos + int row, snd pos + int col)) ` set cells))"
  using assms
proof (induction cells arbitrary: l)
  case Nil
  then show ?case by simp
next
  case (Cons rc cells)
  from Cons.prems obtain l1 where m: "markCell l (int (fst rc) + fst pos) (int (snd rc) + snd pos) = Inr l1"
    and rest: "markCells l1 pos cells = Inr l'"
    by (auto split: sum.splits)
  have len: "length l1 = length l" by (rule markCell_taken(1) [OF m])
  have ih: "length l' = length l1 \<and> (\<forall>r' c'. 0 \<le> r' \<and> r' < int (length l1) \<longrightarrow>
           taken l' r' c' = (taken l1 r' c' \<or>
             (r', c') \<in> (\<lambda>(row, col). (fst pos + int row, snd pos + int col)) ` set cells))"
    by (rule Cons.IH [OF rest])
  show ?case
  proof (intro conjI allI impI)
    show "length l' = length l" using ih len by simp
    fix r' c' :: int
    assume r': "0 \<le> r' \<and> r' < int (length l)"
    have a: "taken l1 r' c' = (taken l r' c' \<or> (r' = int (fst rc) + fst pos \<and> c' = int (snd rc) + snd pos))"
      using markCell_taken(2) [OF m] r' by simp
    have b: "taken l' r' c' = (taken l1 r' c' \<or>
             (r', c') \<in> (\<lambda>(row, col). (fst pos + int row, snd pos + int col)) ` set cells)"
      using ih r' len by simp
    have c: "(r' = int (fst rc) + fst pos \<and> c' = int (snd rc) + snd pos)
        \<longleftrightarrow> (r', c') = (\<lambda>(row, col). (fst pos + int row, snd pos + int col)) rc"
      by (cases rc) auto
    show "taken l' r' c' = (taken l r' c' \<or>
             (r', c') \<in> (\<lambda>(row, col). (fst pos + int row, snd pos + int col)) ` set (rc # cells))"
      unfolding a b c by auto
  qed
qed

lemma markTets_taken:
  assumes "markTets h cur ex l as = Inr l'"
  shows "length l' = length l \<and> (\<forall>r' c'. 0 \<le> r' \<and> r' < int (length l) \<longrightarrow>
           taken l' r' c' = (taken l r' c' \<or>
             (\<exists>b \<in> set as. Some b \<noteq> cur \<and> Some b \<noteq> ex \<and> (r', c') \<in> tetCells (h ! b))))"
  using assms
proof (induction as arbitrary: l)
  case Nil
  then show ?case by simp
next
  case (Cons a as)
  show ?case
  proof (cases "Some a = cur \<or> Some a = ex")
    case True
    then have "markTets h cur ex l as = Inr l'" using Cons.prems by simp
    from Cons.IH [OF this] True show ?thesis by auto
  next
    case False
    with Cons.prems obtain l1 where m: "markCells l (topLeft (h ! a)) (shapeCells (shape (h ! a))) = Inr l1"
      and rest: "markTets h cur ex l1 as = Inr l'"
      by (auto split: sum.splits)
    have m1: "length l1 = length l" and m2: "\<And>r' c'. 0 \<le> r' \<and> r' < int (length l) \<Longrightarrow>
           taken l1 r' c' = (taken l r' c' \<or> (r', c') \<in> tetCells (h ! a))"
      using markCells_taken [OF m] by (simp_all add: tetCells_def occupied_def)
    have ih: "length l' = length l1 \<and> (\<forall>r' c'. 0 \<le> r' \<and> r' < int (length l1) \<longrightarrow>
           taken l' r' c' = (taken l1 r' c' \<or>
             (\<exists>b \<in> set as. Some b \<noteq> cur \<and> Some b \<noteq> ex \<and> (r', c') \<in> tetCells (h ! b))))"
      by (rule Cons.IH [OF rest])
    show ?thesis
    proof (intro conjI allI impI)
      show "length l' = length l" using ih m1 by simp
      fix r' c' :: int
      assume r': "0 \<le> r' \<and> r' < int (length l)"
      have "taken l' r' c' = (taken l1 r' c' \<or>
             (\<exists>b \<in> set as. Some b \<noteq> cur \<and> Some b \<noteq> ex \<and> (r', c') \<in> tetCells (h ! b)))"
        using ih r' m1 by simp
      then show "taken l' r' c' = (taken l r' c' \<or>
             (\<exists>b \<in> set (a # as). Some b \<noteq> cur \<and> Some b \<noteq> ex \<and> (r', c') \<in> tetCells (h ! b)))"
        using m2 [OF r'] False by auto
    qed
  qed
qed

lemma blank_taken:
  assumes "0 \<le> r" "r < 16" "0 \<le> c" "c < 10"
  shows "\<not> taken blankLanded r c"
proof -
  have "nat r < 16" using assms by simp
  then have "blankLanded ! nat r = emptyRow" by (simp add: blankLanded_def)
  then show ?thesis using assms by (simp add: taken_def emptyRow_def)
qed

lemma landedExcluding_length:
  assumes "landedExcluding ex g = Inr l"
  shows "length l = 16"
  using markTets_taken [of "heap g" "currTet g" ex blankLanded "allTets g" l] assms
  by (simp add: landedExcluding_def blankLanded_def)

lemma landedExcluding_taken:
  assumes "landedExcluding None g = Inr l" and "currTet g = Some a"
    and "0 \<le> r" "r < 16" "0 \<le> c" "c < 10"
  shows "taken l r c \<longleftrightarrow> (r, c) \<in> othersCells a g"
proof -
  have m: "markTets (heap g) (Some a) None blankLanded (allTets g) = Inr l"
    using assms(1,2) by (simp add: landedExcluding_def)
  have len: "length blankLanded = 16" by (simp add: blankLanded_def)
  have "taken l r c = (taken blankLanded r c \<or>
      (\<exists>b \<in> set (allTets g). Some b \<noteq> Some a \<and> Some b \<noteq> None \<and> (r, c) \<in> tetCells (heap g ! b)))"
    using markTets_taken [OF m] assms(3,4) len by simp
  then show ?thesis
    using blank_taken [OF assms(3-6)] by (auto simp: othersCells_def)
qed

lemma getLanded_coherent:
  assumes "cacheCoherent g" and "landedExcluding None g = Inr l"
  shows "getLanded None g = Inr (l, g\<lparr>landed := l, updateLanded := False\<rparr>)"
proof (cases "updateLanded g")
  case True
  then show ?thesis using assms(2) by (simp add: getLanded_def landedExcluding_def)
next
  case False
  then have "landed g = l" using assms by (simp add: cacheCoherent_def)
  then have "g\<lparr>landed := l, updateLanded := False\<rparr> = g" using False by simp
  then show ?thesis using False \<open>landed g = l\<close> by (simp add: getLanded_def)
qed

lemma landedTaken_in_range:
  assumes "0 \<le> r" "r < int (length l)"
  shows "landedTaken l r c = Inr (taken l r c)"
  using assms by (simp add: landedTaken_def jsIndex_def taken_def)

subsection \<open>Rotation and side collision\<close>

lemma nextRotation_mod:
  assumes "0 \<le> rot" "rot \<le> 3"
  shows "nextRotation rot = (rot + 1) mod 4"
  using assms by (auto simp: nextRotation_def)

lemma occupied_Bex:
  "(\<exists>(r, c) \<in> occupied sh pos. P r c)
     \<longleftrightarrow> (\<exists>rc \<in> set (shapeCells sh). P (int (fst rc) + fst pos) (int (snd rc) + snd pos))"
  by (simp add: occupied_def case_prod_beta add.commute)

lemma rotateBlocked_iff:
  assumes "length l = 16" "0 \<le> fst pos"
  shows "\<exists>b. rotateBlocked l pos cells = Inr b \<and>
    (b \<longleftrightarrow> (\<exists>rc \<in> set cells.
        int (snd rc) + snd pos < 0 \<or> int (snd rc) + snd pos \<ge> 10 \<or> int (fst rc) + fst pos \<ge> 16
        \<or> taken l (int (fst rc) + fst pos) (int (snd rc) + snd pos)))"
proof (induction cells)
  case Nil
  then show ?case by auto
next
  case (Cons rc cells)
  have "landedTaken l (int (fst rc) + fst pos) c = Inr (taken l (int (fst rc) + fst pos) c)"
    if "\<not> int (fst rc) + fst pos \<ge> 16" for c
    using that assms by (intro landedTaken_in_range) simp_all
  then show ?case
    using Cons.IH by (auto simp: BOARD_COL_NUM_def BOARD_ROW_NUM_def)
qed

lemma sideScan_iff:
  assumes "length l = 16"
    and "\<forall>rc \<in> set cells. 0 \<le> int (fst rc) + fst pos \<and> int (fst rc) + fst pos < 16"
  shows "\<exists>h. sideScan l pos cells = Inr h \<and>
    (h \<noteq> NoHit \<longleftrightarrow> (\<exists>rc \<in> set cells.
        int (snd rc) + snd pos < 0 \<or> int (snd rc) + snd pos \<ge> 10
        \<or> taken l (int (fst rc) + fst pos) (int (snd rc) + snd pos)))"
  using assms(2)
proof (induction cells)
  case Nil
  then show ?case by simp
next
  case (Cons rc cells)
  have "landedTaken l (int (fst rc) + fst pos) c = Inr (taken l (int (fst rc) + fst pos) c)" for c
    using Cons.prems assms(1) by (intro landedTaken_in_range) simp_all
  moreover have "\<exists>h. sideScan l pos cells = Inr h \<and>
    (h \<noteq> NoHit \<longleftrightarrow> (\<exists>rc \<in> set cells.
        int (snd rc) + snd pos < 0 \<or> int (snd rc) + snd pos \<ge> 10
        \<or> taken l (int (fst rc) + fst pos) (int (snd rc) + snd pos)))"
    using Cons.prems by (intro Cons.IH) simp
  ultimately show ?case
    by (auto simp: BOARD_COL_NUM_def)
qed

lemma pieceJ_new: "Tet_new (Some 1) d = Inr pieceJ"
  by (simp add: Tet_new_def Tet_type_def getShapeMatrix_def matrixMatrix_def jsIndex_def
      pivotMaxOf_def blankTet_def setShape_def getPerim_def periMatrix_def pieceJ_def)

lemma soloGame_landed: "landedExcluding None (soloGame t) = Inr blankLanded"
  by (simp add: landedExcluding_def soloGame_def initGame_def)

lemma soloGame_others: "othersCells 0 (soloGame t) = {}"
  by (simp add: othersCells_def soloGame_def initGame_def)

lemma pieceO_new: "Tet_new (Some 3) d = Inr pieceO"
  by (simp add: Tet_new_def Tet_type_def getShapeMatrix_def matrixMatrix_def jsIndex_def
      pivotMaxOf_def blankTet_def setShape_def getPerim_def periMatrix_def pieceO_def)

subsection \<open>Well-formed states\<close>

text \<open>
  A state is well formed when every piece of \<^verbatim>\<open>allTets\<close> is allocated, has
  non-negative cells and lies inside the rows of the board, the cached landed array is
  coherent, and the living and the next piece are catalog pieces. The lemmas below show that
  a new game is well formed, that every event of a well-formed state returns, and that the
  state it returns is well formed.
\<close>

lemma catalog_shape:
  assumes "getShapeMatrix ty rot = Inr (s, pm)"
  shows "nonnegCells s \<and> length s \<le> 4 \<and> pm = pivotMaxOf ty"
proof -
  have "\<forall>m \<in> set matrixMatrix. \<forall>sh \<in> set m. nonnegCells sh \<and> length sh \<le> 4"
    by (simp add: matrixMatrix_def nonnegCells_def)
  moreover from assms obtain m where m: "jsIndex matrixMatrix ty = Some m"
    by (auto simp: getShapeMatrix_def split: option.splits)
  then have mm: "m \<in> set matrixMatrix"
    by (auto simp: jsIndex_def split: if_splits)
  have "s = [] \<or> s \<in> set m" and "pm = pivotMaxOf ty"
    using assms m
    by (auto simp: getShapeMatrix_def jsIndex_def split: if_splits option.splits)
  ultimately show ?thesis using mm by (auto simp: nonnegCells_def)
qed

lemma rowsOK_top:
  assumes "0 \<le> fst (topLeft t)" and "fst (topLeft t) + int (length (shape t)) \<le> 16"
  shows "rowsOK t"
  unfolding rowsOK_def tetCells_def BOARD_ROW_NUM_def
proof
  fix rc assume "rc \<in> occupied (shape t) (topLeft t)"
  then obtain i where "i < length (shape t)" "fst rc = fst (topLeft t) + int i"
    using occupied_iff [of "fst rc" "snd rc" "shape t" "topLeft t"] by auto
  then show "0 \<le> fst rc \<and> fst rc < 16" using assms by simp
qed

lemma Tet_new_live:
  assumes "isDraw rnd" and "ty = None \<or> (\<exists>t. ty = Some t \<and> 0 \<le> t \<and> t \<le> 6)"
  shows "\<exists>p. Tet_new ty rnd = Inr p \<and> live p"
proof -
  let ?t = "Tet_type ty rnd"
  have r: "0 \<le> ?t" "?t < 7"
    using assms by (auto simp: Tet_type_def isDraw_def)
  then obtain s where s: "getShapeMatrix ?t 0 = Inr (s, pivotMaxOf ?t)"
    using getShapeMatrix_total [of ?t 0] by auto
  let ?p = "setShape s ((blankTet ?t)\<lparr>rotation := 0, pivot := 0, pivotMax := pivotMaxOf ?t, topLeft := (0, 4)\<rparr>)"
  have new: "Tet_new ty rnd = Inr ?p"
    using r s by (simp add: Tet_new_def Let_def)
  have f: "type ?p = ?t" "rotation ?p = 0" "topLeft ?p = (0, 4)" "shape ?p = s"
    by (simp_all add: setShape_def blankTet_def)
  have "length s \<le> 4" using catalog_shape [OF s] by simp
  then have "rowsOK ?p" by (intro rowsOK_top) (simp_all add: f)
  then have "live ?p"
    unfolding live_def f using r s by auto
  then show ?thesis using new by blast
qed

lemma live_nonneg: "live t \<Longrightarrow> nonnegCells (shape t)"
  using catalog_shape by (auto simp: live_def)

lemma markCells_total:
  assumes "\<forall>rc \<in> set cells. 0 \<le> int (fst rc) + fst pos \<and> int (fst rc) + fst pos < int (length l)"
  shows "\<exists>l'. markCells l pos cells = Inr l'"
  using assms
proof (induction cells arbitrary: l)
  case Nil
  then show ?case by simp
next
  case (Cons rc cells)
  let ?l1 = "l[nat (int (fst rc) + fst pos) := (l ! nat (int (fst rc) + fst pos))(int (snd rc) + snd pos \<mapsto> 1)]"
  have m: "markCell l (int (fst rc) + fst pos) (int (snd rc) + snd pos) = Inr ?l1"
    using Cons.prems by (simp add: markCell_def)
  have "\<exists>l'. markCells ?l1 pos cells = Inr l'"
    using Cons.prems by (intro Cons.IH) simp
  then show ?case using m by simp
qed

lemma rowsOK_cells:
  assumes "rowsOK t"
  shows "\<forall>rc \<in> set (shapeCells (shape t)).
    0 \<le> int (fst rc) + fst (topLeft t) \<and> int (fst rc) + fst (topLeft t) < 16"
  using assms
  by (auto simp: rowsOK_def tetCells_def occupied_def BOARD_ROW_NUM_def add.commute)

lemma markTets_total:
  assumes "\<forall>b \<in> set as. Some b \<noteq> cur \<and> Some b \<noteq> ex \<longrightarrow> rowsOK (h ! b)" and "length l = 16"
  shows "\<exists>l'. markTets h cur ex l as = Inr l'"
  using assms
proof (induction as arbitrary: l)
  case Nil
  then show ?case by simp
next
  case (Cons a as)
  show ?case
  proof (cases "Some a = cur \<or> Some a = ex")
    case True
    then show ?thesis using Cons by simp
  next
    case False
    then have "rowsOK (h ! a)" using Cons.prems(1) by simp
    then obtain l1 where m: "markCells l (topLeft (h ! a)) (shapeCells (shape (h ! a))) = Inr l1"
      using markCells_total [of "shapeCells (shape (h ! a))" "topLeft (h ! a)" l]
        rowsOK_cells [of "h ! a"] Cons.prems(2) by auto
    have "length l1 = 16" using markCells_taken [OF m] Cons.prems(2) by simp
    then have "\<exists>l'. markTets h cur ex l1 as = Inr l'"
      using Cons.prems(1) by (intro Cons.IH) simp_all
    then show ?thesis using False m by simp
  qed
qed

lemma markTets_cong:
  assumes "\<forall>b \<in> set as. Some b \<noteq> cur \<and> Some b \<noteq> ex \<longrightarrow> h ! b = h' ! b"
  shows "markTets h cur ex l as = markTets h' cur ex l as"
  using assms by (induction as arbitrary: l) (auto split: sum.splits)

lemma markTets_excluded_twice:
  "markTets h (Some a) (Some a) l as = markTets h (Some a) None l as"
  by (induction as arbitrary: l) (auto split: sum.splits)

lemma markTets_snoc_excluded:
  "markTets h (Some a) ex l (as @ [a]) = markTets h (Some a) ex l as"
  by (induction as arbitrary: l) (auto split: sum.splits)

lemma landedExcluding_total:
  assumes "wellFormed g"
  shows "\<exists>l. landedExcluding ex g = Inr l"
  unfolding landedExcluding_def
  using assms by (intro markTets_total) (auto simp: wellFormed_def blankLanded_def)

lemma landedExcluding_fields [simp]:
  "landedExcluding ex (g\<lparr>landed := l\<rparr>) = landedExcluding ex g"
  "landedExcluding ex (g\<lparr>updateLanded := u\<rparr>) = landedExcluding ex g"
  by (simp_all add: landedExcluding_def)

lemma getLanded_None_wf:
  assumes "wellFormed g"
  obtains l where "getLanded None g = Inr (l, g\<lparr>landed := l, updateLanded := False\<rparr>)"
    and "landedExcluding None g = Inr l"
proof -
  obtain l where l: "landedExcluding None g = Inr l"
    using landedExcluding_total [OF assms] by blast
  have "cacheCoherent g" using assms by (simp add: wellFormed_def)
  from getLanded_coherent [OF this l] l that show ?thesis by blast
qed

lemma getLanded_curr_wf:
  assumes "wellFormed g" and "currTet g = Some a"
  obtains l where "getLanded (Some a) g = Inr (l, g\<lparr>landed := l, updateLanded := False\<rparr>)"
    and "landedExcluding None g = Inr l"
proof -
  obtain l where l: "landedExcluding None g = Inr l"
    using landedExcluding_total [OF assms(1)] by blast
  then have "markTets (heap g) (Some a) (Some a) blankLanded (allTets g) = Inr l"
    using assms(2) by (simp add: landedExcluding_def markTets_excluded_twice)
  then have "getLanded (Some a) g = Inr (l, g\<lparr>landed := l, updateLanded := False\<rparr>)"
    using assms(2) by (simp add: getLanded_def)
  with l that show ?thesis by blast
qed

lemma wf_cache:
  assumes "wellFormed g" and "\<not> newTet g \<or> gameOver g" and "landedExcluding None g = Inr l"
  shows "wellFormed (g\<lparr>landed := l, updateLanded := False\<rparr>)"
  using assms by (auto simp: wellFormed_def cacheCoherent_def)

lemma landedExcluding_update_curr:
  assumes "currTet g = Some a"
  shows "landedExcluding None (g\<lparr>heap := (heap g)[a := t']\<rparr>) = landedExcluding None g"
  unfolding landedExcluding_def using assms
  by (simp, intro markTets_cong) auto

lemma wf_update_curr:
  assumes wf: "wellFormed g" and cur: "currTet g = Some a" and go: "\<not> gameOver g"
    and live: "live t'"
  shows "wellFormed (g\<lparr>heap := (heap g)[a := t']\<rparr>)"
proof -
  have a: "a < length (heap g)" using wf cur by (simp add: wellFormed_def)
  have nn: "nonnegCells (shape t')" and rows: "rowsOK t'"
    using live live_nonneg by (auto simp: live_def)
  have i1: "\<forall>b \<in> set (allTets g). b < length (heap g)
      \<and> nonnegCells (shape ((heap g)[a := t'] ! b)) \<and> rowsOK ((heap g)[a := t'] ! b)"
    using wf nn rows a by (auto simp: wellFormed_def nth_list_update)
  have i2: "cacheCoherent (g\<lparr>heap := (heap g)[a := t']\<rparr>)"
    using wf landedExcluding_update_curr [OF cur, of t']
    by (auto simp: wellFormed_def cacheCoherent_def)
  have i5: "\<forall>n. nextTet g = Some n \<longrightarrow> n \<noteq> a" using wf cur go by (auto simp: wellFormed_def)
  show ?thesis
    using wf i1 i2 i5 a live cur
    by (auto simp: wellFormed_def nth_list_update)
qed

lemma rowsOK_same_row:
  assumes "rowsOK t" and "fst p = fst (topLeft t)"
  shows "rowsOK (t\<lparr>topLeft := p\<rparr>)"
  unfolding rowsOK_def tetCells_def
proof
  fix rc assume "rc \<in> occupied (shape (t\<lparr>topLeft := p\<rparr>)) (topLeft (t\<lparr>topLeft := p\<rparr>))"
  then obtain i j where ij: "i < length (shape t)" "j < length (shape t ! i)" "shape t ! i ! j \<noteq> 0"
    "fst rc = fst p + int i"
    using occupied_iff [of "fst rc" "snd rc" "shape t" p] by auto
  then have "(fst (topLeft t) + int i, snd (topLeft t) + int j) \<in> tetCells t"
    unfolding tetCells_def occupied_iff by auto
  then show "0 \<le> fst rc \<and> fst rc < BOARD_ROW_NUM"
    using assms ij(4) by (auto simp: rowsOK_def)
qed

lemma live_same_row:
  assumes "live t" and "fst p = fst (topLeft t)"
  shows "live (t\<lparr>topLeft := p\<rparr>)"
  using assms rowsOK_same_row [of t p] by (auto simp: live_def)

lemma live_pivot [simp]: "live (t\<lparr>pivot := x\<rparr>) = live t"
  by (simp add: live_def rowsOK_def tetCells_def)

lemma live_bumpPivot [simp]: "live (bumpPivot t) = live t"
  by (simp add: bumpPivot_def)

lemma botScan_total:
  assumes "length l = 16" and "0 \<le> fst pos"
  shows "\<exists>b. botScan l pos cells = Inr b \<and>
    (\<not> b \<longrightarrow> (\<forall>rc \<in> set cells. int (fst rc) + fst pos < 16))"
proof (induction cells)
  case Nil
  then show ?case by auto
next
  case (Cons rc cells)
  have "landedTaken l (int (fst rc) + fst pos) c = Inr (taken l (int (fst rc) + fst pos) c)"
    if "\<not> int (fst rc) + fst pos \<ge> 16" for c
    using that assms by (intro landedTaken_in_range) simp_all
  then show ?case
    using Cons.IH by (auto simp: BOARD_ROW_NUM_def)
qed

lemma rowsOK_at:
  assumes "0 \<le> fst p" and "\<forall>rc \<in> set (shapeCells (shape t)). int (fst rc) + fst p < 16"
  shows "rowsOK (t\<lparr>topLeft := p\<rparr>)"
  using assms
  by (auto simp: rowsOK_def tetCells_def occupied_def BOARD_ROW_NUM_def add.commute)

lemma doesTetCollideSide_wf:
  assumes wf: "wellFormed g" and cur: "currTet g = Some a" and can: "canTetMove g"
    and row: "fst pot = fst (topLeft (heap g ! a))"
  shows "\<exists>b g'. doesTetCollideSide a pot dir g = Inr (b, g') \<and> wellFormed g'
    \<and> currTet g' = Some a \<and> canTetMove g'
    \<and> topLeft (heap g' ! a) = topLeft (heap g ! a) \<and> live (heap g' ! a)"
proof -
  obtain l where gl: "getLanded None g = Inr (l, g\<lparr>landed := l, updateLanded := False\<rparr>)"
    and le: "landedExcluding None g = Inr l"
    using getLanded_None_wf [OF wf] by blast
  let ?g1 = "g\<lparr>landed := l, updateLanded := False\<rparr>"
  let ?t = "heap g ! a"
  have a: "a < length (heap g)" and lv: "live ?t" using wf cur by (auto simp: wellFormed_def)
  have wf1: "wellFormed ?g1"
    using wf can le by (intro wf_cache) (auto simp: canTetMove_def)
  have len: "length l = 16" by (rule landedExcluding_length [OF le])
  have "rowsOK (?t\<lparr>topLeft := pot\<rparr>)"
    using lv row by (intro rowsOK_same_row) (auto simp: live_def)
  then have rows: "\<forall>rc \<in> set (shapeCells (shape ?t)).
      0 \<le> int (fst rc) + fst pot \<and> int (fst rc) + fst pot < 16"
    using rowsOK_cells [of "?t\<lparr>topLeft := pot\<rparr>"] by simp
  obtain h where ss: "sideScan l pot (shapeCells (shape ?t)) = Inr h"
    using sideScan_iff [OF len rows] by blast
  have wf2: "wellFormed (?g1\<lparr>heap := (heap ?g1)[a := bumpPivot ?t]\<rparr>)"
    using wf1 cur can lv by (intro wf_update_curr) (auto simp: canTetMove_def)
  have tl: "topLeft (bumpPivot ?t) = topLeft ?t" by (simp add: bumpPivot_def)
  show ?thesis
    using gl ss wf1 wf2 cur can a lv tl
    by (cases h) (auto simp: doesTetCollideSide_def Let_def canTetMove_def)
qed

lemma setTopLeft_wf:
  assumes wf: "wellFormed g" and cur: "currTet g = Some a" and can: "canTetMove g"
    and lv: "live ((heap g ! a)\<lparr>topLeft := p\<rparr>)"
  shows "wellFormed (setTopLeft a p g)"
  unfolding setTopLeft_def
  using wf cur can lv by (intro wf_update_curr) (auto simp: canTetMove_def)

lemma moveLeft_wf:
  assumes wf: "wellFormed g" and cur: "currTet g = Some a" and can: "canTetMove g"
  shows "\<exists>g'. moveLeft a g = Inr g' \<and> wellFormed g'"
proof -
  let ?t = "heap g ! a"
  let ?g0 = "g\<lparr>heap := (heap g)[a := ?t\<lparr>pivot := 0\<rparr>]\<rparr>"
  have a: "a < length (heap g)" and lv: "live ?t" using wf cur by (auto simp: wellFormed_def)
  have wf0: "wellFormed ?g0"
    using wf cur can lv by (intro wf_update_curr) (auto simp: canTetMove_def)
  have t0: "heap ?g0 ! a = ?t\<lparr>pivot := 0\<rparr>" using a by simp
  let ?pot = "(fst (topLeft (heap ?g0 ! a)), snd (topLeft (heap ?g0 ! a)) - 1)"
  have cur0: "currTet ?g0 = Some a" and can0: "canTetMove ?g0"
    using cur can by (simp_all add: canTetMove_def)
  obtain b g1 where s: "doesTetCollideSide a ?pot None ?g0 = Inr (b, g1)"
    and wf1: "wellFormed g1" and cur1: "currTet g1 = Some a" and can1: "canTetMove g1"
    and tl1: "topLeft (heap g1 ! a) = topLeft (heap ?g0 ! a)" and lv1: "live (heap g1 ! a)"
    using doesTetCollideSide_wf [OF wf0 cur0 can0, of ?pot None] by auto
  have "live ((heap g1 ! a)\<lparr>topLeft := ?pot\<rparr>)"
    using lv1 tl1 by (intro live_same_row) simp_all
  then have "wellFormed (setTopLeft a ?pot g1)"
    by (rule setTopLeft_wf [OF wf1 cur1 can1])
  then show ?thesis
    using s wf1 by (auto simp: moveLeft_def Let_def)
qed

lemma moveRight_wf:
  assumes wf: "wellFormed g" and cur: "currTet g = Some a" and can: "canTetMove g"
  shows "\<exists>g'. moveRight a g = Inr g' \<and> wellFormed g'"
proof -
  let ?pot = "(fst (topLeft (heap g ! a)), snd (topLeft (heap g ! a)) + 1)"
  obtain b g1 where s: "doesTetCollideSide a ?pot (Some 1) g = Inr (b, g1)"
    and wf1: "wellFormed g1" and cur1: "currTet g1 = Some a" and can1: "canTetMove g1"
    and tl1: "topLeft (heap g1 ! a) = topLeft (heap g ! a)" and lv1: "live (heap g1 ! a)"
    using doesTetCollideSide_wf [OF wf cur can, of ?pot "Some 1"] by auto
  have "live ((heap g1 ! a)\<lparr>topLeft := ?pot\<rparr>)"
    using lv1 tl1 by (intro live_same_row) simp_all
  then have "wellFormed (setTopLeft a ?pot g1)"
    by (rule setTopLeft_wf [OF wf1 cur1 can1])
  then show ?thesis
    using s wf1 by (auto simp: moveRight_def Let_def)
qed

lemma live_pivotMax [simp]: "live (t\<lparr>pivotMax := x\<rparr>) = live t"
  by (simp add: live_def rowsOK_def tetCells_def)

lemma nextRotation_range:
  assumes "0 \<le> r" "r \<le> 3"
  shows "0 \<le> nextRotation r" "nextRotation r \<le> 3"
  using assms by (auto simp: nextRotation_def)

lemma rotate_wf:
  assumes wf: "wellFormed g" and cur: "currTet g = Some a" and can: "canTetMove g"
  shows "\<exists>ok g'. rotate a g = Inr (ok, g') \<and> wellFormed g'"
proof -
  obtain l where gl: "getLanded None g = Inr (l, g\<lparr>landed := l, updateLanded := False\<rparr>)"
    and le: "landedExcluding None g = Inr l"
    using getLanded_None_wf [OF wf] by blast
  let ?g1 = "g\<lparr>landed := l, updateLanded := False\<rparr>"
  let ?t = "heap g ! a"
  let ?p = "nextRotation (rotation ?t)"
  have a: "a < length (heap g)" and lv: "live ?t" using wf cur by (auto simp: wellFormed_def)
  have ty: "0 \<le> type ?t" "type ?t < 7" and rot: "0 \<le> rotation ?t" "rotation ?t \<le> 3"
    and row: "0 \<le> fst (topLeft ?t)"
    using lv by (auto simp: live_def)
  have wf1: "wellFormed ?g1"
    using wf can le by (intro wf_cache) (auto simp: canTetMove_def)
  have cur1: "currTet ?g1 = Some a" and go1: "\<not> gameOver ?g1"
    using cur can by (simp_all add: canTetMove_def)
  have len: "length l = 16" by (rule landedExcluding_length [OF le])
  obtain cand where sm: "getShapeMatrix (type ?t) ?p = Inr (cand, pivotMaxOf (type ?t))"
    using getShapeMatrix_total [OF ty nextRotation_range [OF rot]] by blast
  let ?t1 = "?t\<lparr>pivotMax := pivotMaxOf (type ?t)\<rparr>"
  obtain b where rb: "rotateBlocked l (topLeft ?t) (shapeCells cand) = Inr b"
    and b: "b \<longleftrightarrow> (\<exists>rc \<in> set (shapeCells cand).
        int (snd rc) + snd (topLeft ?t) < 0 \<or> int (snd rc) + snd (topLeft ?t) \<ge> 10
        \<or> int (fst rc) + fst (topLeft ?t) \<ge> 16
        \<or> taken l (int (fst rc) + fst (topLeft ?t)) (int (snd rc) + snd (topLeft ?t)))"
    using rotateBlocked_iff [OF len row, of "shapeCells cand"] by blast
  show ?thesis
  proof (cases b)
    case True
    have "rotate a g = Inr (False, ?g1\<lparr>heap := (heap ?g1)[a := ?t1]\<rparr>)"
      using gl sm rb True by (simp add: rotate_def Let_def)
    moreover have "wellFormed (?g1\<lparr>heap := (heap ?g1)[a := ?t1]\<rparr>)"
      using lv by (intro wf_update_curr [OF wf1 cur1 go1]) simp
    ultimately show ?thesis by blast
  next
    case False
    let ?pos = "(fst (topLeft ?t), snd (topLeft ?t) + pivot ?t)"
    let ?t2 = "setShape cand (?t1\<lparr>topLeft := (fst (topLeft ?t1), snd (topLeft ?t1) + pivot ?t1),
                                 pivot := 0, rotation := ?p\<rparr>)"
    have run: "rotate a g = Inr (True, ?g1\<lparr>heap := (heap ?g1)[a := ?t2]\<rparr>)"
      using gl sm rb False by (simp add: rotate_def Let_def)
    have f: "type ?t2 = type ?t" "rotation ?t2 = ?p" "topLeft ?t2 = ?pos" "shape ?t2 = cand"
      by (simp_all add: setShape_def)
    have "\<forall>rc \<in> set (shapeCells cand). int (fst rc) + fst ?pos < 16"
      using False b by auto
    then have "rowsOK (?t2\<lparr>topLeft := ?pos\<rparr>)"
      using row rowsOK_at [of ?pos ?t2, unfolded f(4)] by simp
    moreover have "?t2\<lparr>topLeft := ?pos\<rparr> = ?t2" by (simp add: setShape_def)
    ultimately have "rowsOK ?t2" by simp
    then have "live ?t2"
      unfolding live_def f using ty nextRotation_range [OF rot] row sm by auto
    then have "wellFormed (?g1\<lparr>heap := (heap ?g1)[a := ?t2]\<rparr>)"
      by (rule wf_update_curr [OF wf1 cur1 go1])
    then show ?thesis using run by blast
  qed
qed

lemma stripRight_subset: "set (stripRight r) \<subseteq> set r"
  unfolding stripRight_def using set_dropWhileD [of _ "\<lambda>x. x = 0" "rev r"] by auto

lemma stripLeft_nonneg:
  assumes "stripLeft sh col = Some y"
  shows "nonnegCells sh \<longrightarrow> nonnegCells (fst y)"
proof (rule stripLeft.raw_induct [OF _ assms,
      where P = "\<lambda>sh col y. nonnegCells sh \<longrightarrow> nonnegCells (fst y)"])
  fix f sh col y
  assume ih: "\<And>sh col y. f sh col = Some y \<Longrightarrow> nonnegCells sh \<longrightarrow> nonnegCells (fst y)"
    and step: "(if firstColOccupied sh then Some (sh, col) else f (map (drop 1) sh) (col + 1)) = Some y"
  show "nonnegCells sh \<longrightarrow> nonnegCells (fst y)"
  proof (cases "firstColOccupied sh")
    case True
    then show ?thesis using step by auto
  next
    case False
    then have "f (map (drop 1) sh) (col + 1) = Some y" using step by simp
    from ih [OF this] show ?thesis using nonnegCells_drop [of sh 1] by blast
  qed
qed

lemma cleanShape_nonneg:
  assumes "cleanShape rep = Some rep'" and "nonnegCells (fst rep)"
  shows "nonnegCells (fst rep')"
proof -
  obtain sh col where s: "stripLeft (fst rep) (snd (snd rep)) = Some (sh, col)"
    and r: "rep' = (map stripRight sh, (fst (snd rep), col))"
    using assms(1) by (auto simp: cleanShape_def split: option.splits)
  have "nonnegCells sh" using stripLeft_nonneg [OF s] assms(2) by simp
  then show ?thesis
    using stripRight_subset unfolding r nonnegCells_def by fastforce
qed

lemma cleanAll_nonneg:
  assumes "cleanAll q = Some q'" and "\<forall>rep \<in> set q. nonnegCells (fst rep)"
  shows "\<forall>rep \<in> set q'. nonnegCells (fst rep)"
  using assms
proof (induction q arbitrary: q')
  case Nil
  then show ?case by simp
next
  case (Cons rep q)
  from Cons.prems(1) obtain rep' rs' where c: "cleanShape rep = Some rep'"
    and r: "cleanAll q = Some rs'" and q': "q' = rep' # rs'"
    by (auto split: option.splits)
  have "nonnegCells (fst rep')" using cleanShape_nonneg [OF c] Cons.prems(2) by simp
  moreover have "\<forall>rep \<in> set rs'. nonnegCells (fst rep)"
    using Cons.IH [OF r] Cons.prems(2) by simp
  ultimately show ?case by (simp add: q')
qed

lemma updateTetPieces_cells:
  assumes "nonnegCells (shape t)"
  shows "\<exists>t' frags rm. updateTetPieces t = Some (t', frags, rm)
    \<and> tetCells t' \<union> \<Union> (tetCells ` set frags) = tetCells t
    \<and> nonnegCells (shape t') \<and> (\<forall>f \<in> set frags. nonnegCells (shape f))
    \<and> (tetCells t \<noteq> {} \<longrightarrow> \<not> rm)"
proof -
  have q: "(\<Union>rep \<in> set (fragmentQueue t). occupied (fst rep) (snd rep)) = tetCells t"
    and g: "\<forall>rep \<in> set (fragmentQueue t). goodRep rep"
    using fragmentQueue_cells [OF assms] by simp_all
  obtain q' where c: "cleanAll (fragmentQueue t) = Some q'"
    and u: "(\<Union>rep \<in> set q'. occupied (fst rep) (snd rep)) = tetCells t"
    using cleanAll_good [OF g] q by auto
  have nn: "\<forall>rep \<in> set q'. nonnegCells (fst rep)"
    using cleanAll_nonneg [OF c] g by (simp add: goodRep_def)
  show ?thesis
  proof (cases q')
    case Nil
    then have "updateTetPieces t = Some (t, [], True)" by (simp add: updateTetPieces_def c)
    moreover have "tetCells t = {}" using u Nil by simp
    ultimately show ?thesis using assms by auto
  next
    case (Cons r rs)
    have run: "updateTetPieces t
        = Some (setShape (fst r) (t\<lparr>topLeft := snd r\<rparr>), map (fragmentTet t) rs, False)"
      by (simp add: updateTetPieces_def c Cons)
    have cells: "tetCells (setShape (fst r) (t\<lparr>topLeft := snd r\<rparr>))
        \<union> \<Union> (tetCells ` set (map (fragmentTet t) rs)) = tetCells t"
      using u by (simp add: Cons tetCells_setShape tetCells_fragmentTet)
    have "nonnegCells (shape (setShape (fst r) (t\<lparr>topLeft := snd r\<rparr>)))"
      using nn Cons by (simp add: setShape_def)
    moreover have "\<forall>f \<in> set (map (fragmentTet t) rs). nonnegCells (shape f)"
      using nn Cons by (simp add: fragmentTet_def setShape_def)
    ultimately show ?thesis using run cells by blast
  qed
qed

lemma zero_row_cells:
  "occupied (sh[i := map (\<lambda>_. 0) (sh ! i)]) pos \<subseteq> occupied sh pos"
proof (rule subsetI, clarify)
  fix a b assume "(a, b) \<in> occupied (sh[i := map (\<lambda>_. 0) (sh ! i)]) pos"
  then obtain k j where h: "k < length sh" "j < length (sh[i := map (\<lambda>_. 0) (sh ! i)] ! k)"
    "sh[i := map (\<lambda>_. 0) (sh ! i)] ! k ! j \<noteq> 0" "a = fst pos + int k" "b = snd pos + int j"
    unfolding occupied_iff by auto
  have "k \<noteq> i" using h by (auto simp: nth_list_update split: if_splits)
  then show "(a, b) \<in> occupied sh pos"
    using h unfolding occupied_iff by (intro exI [of _ k] exI [of _ j]) simp
qed

lemma zero_row_nonneg:
  "nonnegCells sh \<Longrightarrow> nonnegCells (sh[i := map (\<lambda>_. 0) (sh ! i)])"
  unfolding nonnegCells_def by (auto dest!: set_update_subset_insert [THEN subsetD])

lemma zeroRows_cells: "occupied (zeroRows sh topRow frs) pos \<subseteq> occupied sh pos"
proof (induction frs arbitrary: sh)
  case Nil
  then show ?case by simp
next
  case (Cons fr frs)
  show ?case
    using Cons.IH [of sh] Cons.IH [of "sh[nat (fr - topRow) := map (\<lambda>_. 0) (sh ! nat (fr - topRow))]"]
      zero_row_cells [of sh "nat (fr - topRow)" pos]
    by (auto simp: Let_def)
qed

lemma zeroRows_nonneg: "nonnegCells sh \<Longrightarrow> nonnegCells (zeroRows sh topRow frs)"
  by (induction frs arbitrary: sh) (auto simp: Let_def zero_row_nonneg)

lemma rowsOK_subset: "tetCells t' \<subseteq> tetCells t \<Longrightarrow> rowsOK t \<Longrightarrow> rowsOK t'"
  by (auto simp: rowsOK_def)

lemma sameSlots_refl [simp]: "sameSlots g g"
  by (simp add: sameSlots_def)

lemma sameSlots_trans: "sameSlots g g' \<Longrightarrow> sameSlots g' g'' \<Longrightarrow> sameSlots g g''"
  by (simp add: sameSlots_def)

lemma alterShape_ok:
  assumes ok: "piecesOK g" and b: "b \<in> set (allTets g)"
  shows "\<exists>g'. alterShape b frs g = Inr g' \<and> piecesOK g' \<and> sameSlots g g'
    \<and> set (allTets g) \<subseteq> set (allTets g')"
proof -
  let ?t = "heap g ! b"
  let ?t2 = "?t\<lparr>shape := zeroRows (shape ?t) (fst (topLeft ?t)) frs\<rparr>"
  let ?g2 = "g\<lparr>heap := (heap g)[b := ?t2]\<rparr>"
  have bl: "b < length (heap g)" and nn: "nonnegCells (shape ?t)" and rows: "rowsOK ?t"
    using ok b by (auto simp: piecesOK_def)
  have nn2: "nonnegCells (shape ?t2)" using nn by (simp add: zeroRows_nonneg)
  have c2: "tetCells ?t2 \<subseteq> tetCells ?t"
    using zeroRows_cells by (simp add: tetCells_def)
  obtain t' frags rm where u: "updateTetPieces ?t2 = Some (t', frags, rm)"
    and cells: "tetCells t' \<union> \<Union> (tetCells ` set frags) = tetCells ?t2"
    and nn': "nonnegCells (shape t')" and nnf: "\<forall>f \<in> set frags. nonnegCells (shape f)"
    using updateTetPieces_cells [OF nn2] by blast
  have t2: "heap ?g2 ! b = ?t2" using bl by simp
  let ?h = "(heap ?g2)[b := t'] @ frags"
  let ?g' = "?g2\<lparr>heap := ?h,
      allTets := allTets ?g2 @ [length (heap ?g2)..<length (heap ?g2) + length frags],
      tetsToRemove := (if rm then tetsToRemove ?g2 @ [indexOf (allTets ?g2) b] else tetsToRemove ?g2)\<rparr>"
  have run: "alterShape b frs g = Inr ?g'"
    using u t2 by (simp add: alterShape_def Let_def updateTet_def)
  have r': "rowsOK t'" and rf: "\<forall>f \<in> set frags. rowsOK f"
    using cells c2 rows by (auto simp: rowsOK_def)
  have old: "?h ! c = (if c = b then t' else heap g ! c)" if "c < length (heap g)" for c
    using that by (simp add: nth_append nth_list_update)
  have new: "?h ! (length (heap g) + k) = frags ! k" if "k < length frags" for k
    using that by (simp add: nth_append)
  have i1: "\<forall>c \<in> set (allTets ?g'). c < length (heap ?g')
      \<and> nonnegCells (shape (heap ?g' ! c)) \<and> rowsOK (heap ?g' ! c)"
  proof
    fix c assume "c \<in> set (allTets ?g')"
    then consider "c \<in> set (allTets g)" | k where "k < length frags" "c = length (heap g) + k"
      by (auto simp: in_set_conv_nth nth_append) (metis le_add_diff_inverse less_diff_conv2)
    then show "c < length (heap ?g') \<and> nonnegCells (shape (heap ?g' ! c)) \<and> rowsOK (heap ?g' ! c)"
    proof cases
      case 1
      then have "c < length (heap g)" "nonnegCells (shape (heap g ! c))" "rowsOK (heap g ! c)"
        using ok by (auto simp: piecesOK_def)
      then show ?thesis using old [of c] nn' r' by simp
    next
      case 2
      then show ?thesis using new [of k] nnf rf by simp
    qed
  qed
  have i5: "\<forall>n. nextTet ?g' = Some n \<longrightarrow>
      n < length (heap ?g') \<and> n \<notin> set (allTets ?g') \<and> live (heap ?g' ! n)"
  proof (intro allI impI)
    fix n assume "nextTet ?g' = Some n"
    then have n: "n < length (heap g)" "n \<notin> set (allTets g)" "live (heap g ! n)"
      using ok by (auto simp: piecesOK_def)
    then have "n \<noteq> b" using b by auto
    then show "n < length (heap ?g') \<and> n \<notin> set (allTets ?g') \<and> live (heap ?g' ! n)"
      using n old [of n] by auto
  qed
  have "piecesOK ?g'" unfolding piecesOK_def using i1 i5 by blast
  moreover have "sameSlots g ?g'" by (simp add: sameSlots_def)
  moreover have "set (allTets g) \<subseteq> set (allTets ?g')" by auto
  ultimately show ?thesis using run by blast
qed

lemma alterLoop_ok:
  assumes "piecesOK g" and "set as \<subseteq> set (allTets g)"
  shows "\<exists>g'. alterLoop frs firstRow lastRow as g = Inr g' \<and> piecesOK g' \<and> sameSlots g g'"
  using assms
proof (induction as arbitrary: g)
  case Nil
  then show ?case by simp
next
  case (Cons a as)
  show ?case
  proof (cases "fst (topLeft (heap g ! a)) \<le> firstRow - 4 \<or> fst (topLeft (heap g ! a)) > lastRow")
    case True
    then show ?thesis using Cons.IH [of g] Cons.prems by simp
  next
    case False
    obtain g1 where a1: "alterShape a frs g = Inr g1" and ok1: "piecesOK g1"
      and s1: "sameSlots g g1" and sub: "set (allTets g) \<subseteq> set (allTets g1)"
      using alterShape_ok [of g a frs] Cons.prems by auto
    obtain g' where "alterLoop frs firstRow lastRow as g1 = Inr g'" "piecesOK g'" "sameSlots g1 g'"
      using Cons.IH [OF ok1] Cons.prems(2) sub by auto
    then show ?thesis using a1 False s1 sameSlots_trans by auto
  qed
qed

lemma splice1_subset: "set (splice1 xs i) \<subseteq> set xs"
  by (auto simp: splice1_def Let_def dest: in_set_takeD in_set_dropD)

lemma removeLoop_subset: "set (removeLoop ks i aT) \<subseteq> set aT"
proof (induction ks arbitrary: i aT)
  case Nil
  then show ?case by simp
next
  case (Cons k ks)
  show ?case using Cons.IH [of "i + 1" "splice1 aT (k - i)"] splice1_subset [of aT "k - i"] by auto
qed

lemma piecesOK_subset:
  assumes "piecesOK g" and "set xs \<subseteq> set (allTets g)"
  shows "piecesOK (g\<lparr>allTets := xs\<rparr>)"
  using assms by (auto simp: piecesOK_def)

lemma alterShapes_ok:
  assumes "piecesOK g"
  shows "\<exists>g'. alterShapes frs g = Inr g' \<and> piecesOK g' \<and> sameSlots g g' \<and> updateLanded g'"
proof -
  obtain g1 where l: "alterLoop frs (hd frs) (last frs) (allTets g) g = Inr g1"
    and ok1: "piecesOK g1" and s1: "sameSlots g g1"
    using alterLoop_ok [OF assms subset_refl, of frs "hd frs" "last frs"] by auto
  let ?g' = "g1\<lparr>allTets := removeLoop (tetsToRemove g1) 0 (allTets g1),
                 tetsToRemove := [], updateLanded := True\<rparr>"
  have "piecesOK (g1\<lparr>allTets := removeLoop (tetsToRemove g1) 0 (allTets g1)\<rparr>)"
    by (rule piecesOK_subset [OF ok1 removeLoop_subset])
  then have "piecesOK ?g'" by (simp add: piecesOK_def)
  moreover have "sameSlots g ?g'" using s1 by (simp add: sameSlots_def)
  ultimately show ?thesis using l by (auto simp: alterShapes_def)
qed

lemma collectFull_total:
  assumes "\<forall>row \<in> set rows. 0 \<le> row \<and> row < int (length l)"
  shows "\<exists>fr. collectFull l rows = Inr fr"
  using assms
proof (induction rows)
  case Nil
  then show ?case by simp
next
  case (Cons row rows)
  then obtain fr where "collectFull l rows = Inr fr" by auto
  moreover have "\<exists>b. rowFilled l row = Inr b"
    using Cons.prems by (simp add: rowFilled_def jsIndex_def)
  ultimately show ?case by auto
qed

lemma piecesOK_fields [simp]:
  "piecesOK (g\<lparr>landed := l\<rparr>) = piecesOK g"
  "piecesOK (g\<lparr>updateLanded := u\<rparr>) = piecesOK g"
  "piecesOK (g\<lparr>score := sc\<rparr>) = piecesOK g"
  "piecesOK (g\<lparr>moveLoops := ml\<rparr>) = piecesOK g"
  "piecesOK (g\<lparr>newTet := nt\<rparr>) = piecesOK g"
  "piecesOK (g\<lparr>currTet := ct\<rparr>) = piecesOK g"
  by (simp_all add: piecesOK_def)

lemma collided_ok:
  assumes ok: "piecesOK g" and upd: "updateLanded g" and cur: "currTet g = None"
    and row: "0 \<le> fst (topLeft (heap g ! a))"
  shows "\<exists>g'. collided a g = Inr g' \<and> piecesOK g' \<and> sameSlots g g' \<and> updateLanded g'"
proof -
  have "\<exists>l. markTets (heap g) None None blankLanded (allTets g) = Inr l"
    using ok by (intro markTets_total) (auto simp: piecesOK_def blankLanded_def)
  then obtain l where m: "markTets (heap g) None None blankLanded (allTets g) = Inr l" by blast
  let ?g1 = "g\<lparr>landed := l, updateLanded := False\<rparr>"
  have gl: "getLanded None g = Inr (l, ?g1)"
    using m upd cur by (simp add: getLanded_def)
  have len: "length l = 16" using markTets_taken [OF m] by (simp add: blankLanded_def)
  have "\<forall>r \<in> set [fst (topLeft (heap g ! a))..BOARD_ROW_NUM - 1]. 0 \<le> r \<and> r < int (length l)"
    using row len by (auto simp: BOARD_ROW_NUM_def)
  then obtain fr where cf: "collectFull l [fst (topLeft (heap ?g1 ! a))..BOARD_ROW_NUM - 1] = Inr fr"
    using collectFull_total [of "[fst (topLeft (heap g ! a))..BOARD_ROW_NUM - 1]" l] by auto
  let ?g2 = "?g1\<lparr>updateLanded := True\<rparr>"
  show ?thesis
  proof (cases "fr = []")
    case True
    then have "collided a g = Inr ?g2" using gl cf by (simp add: collided_def Let_def)
    moreover have "piecesOK ?g2" using ok by simp
    moreover have "sameSlots g ?g2" by (simp add: sameSlots_def)
    ultimately show ?thesis by auto
  next
    case False
    let ?g2s = "?g2\<lparr>score := score ?g2 + rowScore (length fr)\<rparr>"
    have "piecesOK ?g2s" using ok by simp
    then obtain g3 where a3: "alterShapes fr ?g2s = Inr g3" and ok3: "piecesOK g3"
      and s3: "sameSlots ?g2s g3"
      using alterShapes_ok [of ?g2s fr] by auto
    let ?g' = "g3\<lparr>updateLanded := True, moveLoops := moveLoops g3 @ [a]\<rparr>"
    have "collided a g = Inr ?g'"
      using gl cf False a3 by (simp add: collided_def Let_def)
    moreover have "piecesOK ?g'" using ok3 by simp
    moreover have "sameSlots g ?g'" using s3 by (simp add: sameSlots_def)
    ultimately show ?thesis by auto
  qed
qed

lemma wellFormed_pieces: "wellFormed g \<Longrightarrow> piecesOK g"
  by (auto simp: wellFormed_def piecesOK_def)

lemma pieces_wellFormed:
  assumes "piecesOK g" and "currTet g = None" and "updateLanded g"
  shows "wellFormed g"
  using assms by (auto simp: wellFormed_def piecesOK_def cacheCoherent_def)

lemma moveDown_wf:
  assumes wf: "wellFormed g" and cur: "currTet g = Some a" and can: "canTetMove g"
  shows "\<exists>g'. moveDown a g = Inr g' \<and> wellFormed g'"
proof -
  let ?t = "heap g ! a"
  let ?pot = "(fst (topLeft ?t) + 1, snd (topLeft ?t))"
  obtain l where gl: "getLanded (Some a) g = Inr (l, g\<lparr>landed := l, updateLanded := False\<rparr>)"
    and le: "landedExcluding None g = Inr l"
    using getLanded_curr_wf [OF wf cur] by blast
  let ?g1 = "g\<lparr>landed := l, updateLanded := False\<rparr>"
  have a: "a < length (heap g)" and lv: "live ?t" using wf cur by (auto simp: wellFormed_def)
  have row: "0 \<le> fst (topLeft ?t)" using lv by (simp add: live_def)
  have wf1: "wellFormed ?g1"
    using wf can le by (intro wf_cache) (auto simp: canTetMove_def)
  have cur1: "currTet ?g1 = Some a" and can1: "canTetMove ?g1"
    using cur can by (simp_all add: canTetMove_def)
  have len: "length l = 16" by (rule landedExcluding_length [OF le])
  obtain b where bs: "botScan l ?pot (shapeCells (shape ?t)) = Inr b"
    and nb: "\<not> b \<longrightarrow> (\<forall>rc \<in> set (shapeCells (shape ?t)). int (fst rc) + fst ?pot < 16)"
    using botScan_total [OF len, of ?pot "shapeCells (shape ?t)"] row by auto
  have col: "doesTetCollideBot a ?pot g = Inr (b, ?g1)"
    using gl bs by (simp add: doesTetCollideBot_def)
  show ?thesis
  proof (cases b)
    case False
    have "rowsOK (?t\<lparr>topLeft := ?pot\<rparr>)"
      using nb False row by (intro rowsOK_at) simp_all
    then have "live ((heap ?g1 ! a)\<lparr>topLeft := ?pot\<rparr>)"
      using lv row by (auto simp: live_def)
    then have "wellFormed (setTopLeft a ?pot ?g1)"
      by (rule setTopLeft_wf [OF wf1 cur1 can1])
    then show ?thesis using col False by (simp add: moveDown_def Let_def)
  next
    case True
    let ?gL = "?g1\<lparr>newTet := True, currTet := None, updateLanded := True\<rparr>"
    have "piecesOK ?gL" using wellFormed_pieces [OF wf] by simp
    then obtain g' where c: "collided a ?gL = Inr g'" and ok': "piecesOK g'"
      and s': "sameSlots ?gL g'" and u': "updateLanded g'"
      using collided_ok [of ?gL a] row by auto
    have "wellFormed g'"
      using ok' s' u' by (intro pieces_wellFormed) (simp_all add: sameSlots_def)
    then show ?thesis using col True c by (simp add: moveDown_def Let_def)
  qed
qed

lemma landedExcluding_heap_append:
  assumes "\<forall>b \<in> set (allTets g). b < length (heap g)"
  shows "landedExcluding ex (g\<lparr>heap := heap g @ ps\<rparr>) = landedExcluding ex g"
  unfolding landedExcluding_def using assms
  by (simp, intro markTets_cong) (auto simp: nth_append)

lemma wf_alloc_next:
  assumes wf: "wellFormed g" and lv: "live p"
  shows "wellFormed (g\<lparr>heap := heap g @ [p], nextTet := Some (length (heap g))\<rparr>)"
proof -
  have i1: "\<forall>b \<in> set (allTets g). b < length (heap g)" using wf by (auto simp: wellFormed_def)
  have le: "landedExcluding None (g\<lparr>heap := heap g @ [p], nextTet := Some (length (heap g))\<rparr>)
      = landedExcluding None g"
    using landedExcluding_heap_append [OF i1, of None "[p]"] by (simp add: landedExcluding_def)
  show ?thesis
    using wf lv le i1 by (auto simp: wellFormed_def cacheCoherent_def nth_append)
qed

lemma ensureNextTet_wf:
  assumes wf: "wellFormed g" and d: "isDraw d1" "isDraw d2"
  shows "\<exists>g1 n. ensureNextTet d1 d2 g = Inr g1 \<and> wellFormed g1 \<and> nextTet g1 = Some n
    \<and> newTet g1 = newTet g \<and> gameOver g1 = gameOver g"
proof (cases "nextTet g")
  case (Some n)
  then show ?thesis using wf by (simp add: ensureNextTet_def)
next
  case None
  let ?t = "if d1 = 4 \<or> d1 = 6 then d1 - 1 else d1"
  have "0 \<le> ?t \<and> ?t \<le> 6" using d(1) by (auto simp: isDraw_def)
  then obtain p where p: "Tet_new (Some ?t) d2 = Inr p" and lv: "live p"
    using Tet_new_live [OF d(2), of "Some ?t"] by auto
  let ?g1 = "g\<lparr>heap := heap g @ [p], nextTet := Some (length (heap g))\<rparr>"
  have "ensureNextTet d1 d2 g = Inr ?g1"
    using None p by (simp add: ensureNextTet_def allocTet_def Let_def)
  moreover have "wellFormed ?g1" by (rule wf_alloc_next [OF wf lv])
  ultimately show ?thesis by simp
qed

lemma createTet_wf:
  assumes wf: "wellFormed g" and nt: "newTet g" and go: "\<not> gameOver g"
    and d: "isDraw d1" "isDraw d2" "isDraw d3"
  shows "\<exists>g'. createTet d1 d2 d3 g = Inr g' \<and> wellFormed g'"
proof -
  obtain g1 n where e: "ensureNextTet d1 d2 g = Inr g1" and wf1: "wellFormed g1"
    and n: "nextTet g1 = Some n" and nt1: "newTet g1" and go1: "\<not> gameOver g1"
    using ensureNextTet_wf [OF wf d(1,2)] nt go by auto
  obtain p where p: "Tet_new None d3 = Inr p" and lv: "live p"
    using Tet_new_live [OF d(3), of None] by auto
  have upd1: "updateLanded g1" and n1: "n < length (heap g1)" "n \<notin> set (allTets g1)"
    "live (heap g1 ! n)"
    and i1: "\<forall>b \<in> set (allTets g1). b < length (heap g1)"
    using wf1 nt1 go1 n by (auto simp: wellFormed_def)
  let ?a2 = "length (heap g1)"
  let ?g4 = "g1\<lparr>heap := heap g1 @ [p], currTet := Some n, nextTet := Some ?a2, newTet := False\<rparr>"
  have le4: "landedExcluding None ?g4 = landedExcluding None (g1\<lparr>currTet := Some n\<rparr>)"
    using landedExcluding_heap_append [of "g1\<lparr>currTet := Some n\<rparr>" None "[p]"] i1
    by (simp add: landedExcluding_def)
  have wf4: "wellFormed ?g4"
    using wf1 lv n1 upd1 go1 by (auto simp: wellFormed_def cacheCoherent_def nth_append)
  have cur4: "currTet ?g4 = Some n" by simp
  have t4: "heap ?g4 ! n = heap g1 ! n" using n1 by (simp add: nth_append)
  obtain l where gl: "getLanded (Some n) ?g4 = Inr (l, ?g4\<lparr>landed := l, updateLanded := False\<rparr>)"
    and le: "landedExcluding None ?g4 = Inr l"
    using getLanded_curr_wf [OF wf4 cur4] by blast
  let ?g5 = "?g4\<lparr>landed := l, updateLanded := False\<rparr>"
  have wf5: "wellFormed ?g5" using wf4 le by (intro wf_cache) simp_all
  have len: "length l = 16" by (rule landedExcluding_length [OF le])
  have row: "0 \<le> fst (topLeft (heap g1 ! n))" using n1 by (simp add: live_def)
  obtain b where bs: "botScan l (topLeft (heap g1 ! n)) (shapeCells (shape (heap g1 ! n))) = Inr b"
    using botScan_total [OF len row] by blast
  have col: "doesTetCollideBot n (topLeft (heap ?g4 ! n)) ?g4 = Inr (b, ?g5)"
    using gl bs t4 by (simp add: doesTetCollideBot_def)
  have step: "createTet d1 d2 d3 g =
    (if b then Inr (?g5\<lparr>nextTet := currTet ?g5, gameOver := True, newTet := True\<rparr>)
     else Inr (?g5\<lparr>allTets := allTets ?g5 @ [n]\<rparr>))"
    using e nt1 n p col by (simp add: createTet_def allocTet_def Let_def)
  show ?thesis
  proof (cases b)
    case True
    let ?g' = "?g5\<lparr>nextTet := currTet ?g5, gameOver := True, newTet := True\<rparr>"
    have "landedExcluding None ?g' = Inr l" using le by (simp add: landedExcluding_def)
    then have "wellFormed ?g'"
      using wf5 n1 by (auto simp: wellFormed_def cacheCoherent_def nth_append)
    then show ?thesis using step True by simp
  next
    case False
    let ?g' = "?g5\<lparr>allTets := allTets ?g5 @ [n]\<rparr>"
    have "landedExcluding None ?g' = Inr l"
      using le by (simp add: landedExcluding_def markTets_snoc_excluded)
    moreover have "nonnegCells (shape (heap g1 ! n))" "rowsOK (heap g1 ! n)"
      using n1 live_nonneg by (auto simp: live_def)
    ultimately have "wellFormed ?g'"
      using wf5 n1 t4 by (auto simp: wellFormed_def cacheCoherent_def nth_append)
    then show ?thesis using step False by simp
  qed
qed

lemma initGame_wf: "wellFormed initGame"
  by (simp add: wellFormed_def initGame_def cacheCoherent_def)

lemma Game_new_wf:
  assumes "isDraw d1" "isDraw d2" "isDraw d3"
  shows "\<exists>g. Game_new d1 d2 d3 = Inr g \<and> wellFormed g"
  unfolding Game_new_def
  using assms by (intro createTet_wf initGame_wf) (simp_all add: initGame_def)

lemma handleEvent_wf:
  assumes wf: "wellFormed g" and d: "drawsOK ev"
  shows "\<exists>g'. handleEvent ev g = Inr g' \<and> wellFormed g'"
proof (cases ev)
  case (Tick d1 d2 d3)
  show ?thesis
  proof (cases "gameOver g")
    case True
    then show ?thesis using wf Tick by simp
  next
    case go: False
    show ?thesis
    proof (cases "newTet g")
      case True
      then show ?thesis using createTet_wf [OF wf True go, of d1 d2 d3] d Tick go by simp
    next
      case nt: False
      show ?thesis
      proof (cases "currTet g")
        case None
        then show ?thesis using wf Tick go nt by simp
      next
        case (Some a)
        have "canTetMove g" using go nt by (simp add: canTetMove_def)
        from moveDown_wf [OF wf Some this] show ?thesis using Tick go nt Some by simp
      qed
    qed
  qed
next
  case KeyLeft
  then show ?thesis using wf moveLeft_wf [OF wf]
    by (cases "currTet g") (auto simp: onCurrTet_def)
next
  case KeyRight
  then show ?thesis using wf moveRight_wf [OF wf]
    by (cases "currTet g") (auto simp: onCurrTet_def)
next
  case KeyUp
  then show ?thesis using wf rotate_wf [OF wf]
    by (cases "currTet g") (fastforce simp: onCurrTet_def)+
next
  case KeyDown
  then show ?thesis using wf moveDown_wf [OF wf]
    by (cases "currTet g") (auto simp: onCurrTet_def)
qed

lemma handleEvents_wf:
  assumes "wellFormed g" and "\<forall>ev \<in> set evs. drawsOK ev"
  shows "\<exists>g'. handleEvents evs g = Inr g' \<and> wellFormed g'"
  using assms
proof (induction evs arbitrary: g)
  case Nil
  then show ?case by simp
next
  case (Cons ev evs)
  obtain g1 where "handleEvent ev g = Inr g1" "wellFormed g1"
    using handleEvent_wf [of g ev] Cons.prems by auto
  then show ?case using Cons.IH [of g1] Cons.prems(2) by auto
qed

lemma reachable_wellFormed:
  assumes "isDraw d1" "isDraw d2" "isDraw d3" and "\<forall>ev \<in> set evs. drawsOK ev"
  shows "\<exists>g0 g. Game_new d1 d2 d3 = Inr g0 \<and> handleEvents evs g0 = Inr g \<and> wellFormed g"
  using Game_new_wf [OF assms(1-3)] handleEvents_wf [OF _ assms(4)] by blast

lemma wellFormed_living:
  assumes "wellFormed g" and "currTet g = Some a"
  shows "a < length (heap g)" "0 \<le> type (heap g ! a)" "type (heap g ! a) < 7"
    "0 \<le> rotation (heap g ! a)" "rotation (heap g ! a) \<le> 3" "0 \<le> fst (topLeft (heap g ! a))"
    "cacheCoherent g" "\<exists>l. landedExcluding None g = Inr l" "rowsOK (heap g ! a)"
  using assms landedExcluding_total [OF assms(1), of None]
  by (auto simp: wellFormed_def live_def)

subsection \<open>The score a landing awards\<close>

text \<open>
  \<^verbatim>\<open>alterShapes\<close> leaves the score alone, and the rows that \<^verbatim>\<open>collided\<close> collects
  from the landed array are the full rows, from the top row of the piece down.
\<close>

lemma updateTet_score: "updateTet a g = Inr g' \<Longrightarrow> score g' = score g"
  by (auto simp: updateTet_def split: option.splits)

lemma alterShape_score: "alterShape a frs g = Inr g' \<Longrightarrow> score g' = score g"
  using updateTet_score by (fastforce simp: alterShape_def Let_def)

lemma alterLoop_score: "alterLoop frs fr lr as g = Inr g' \<Longrightarrow> score g' = score g"
proof (induction as arbitrary: g)
  case Nil
  then show ?case by simp
next
  case (Cons a as)
  then show ?case
    using alterShape_score by (fastforce split: if_splits sum.splits)
qed

lemma alterShapes_score: "alterShapes frs g = Inr g' \<Longrightarrow> score g' = score g"
  using alterLoop_score by (fastforce simp: alterShapes_def split: sum.splits)

lemma landedExcluding_cells:
  assumes "landedExcluding None g = Inr l" and "0 \<le> r" "r < 16" "0 \<le> c" "c < 10"
  shows "taken l r c \<longleftrightarrow> (r, c) \<in> landedCells g"
proof -
  have m: "markTets (heap g) (currTet g) None blankLanded (allTets g) = Inr l"
    using assms(1) by (simp add: landedExcluding_def)
  have len: "length blankLanded = 16" by (simp add: blankLanded_def)
  have "taken l r c = (taken blankLanded r c \<or>
      (\<exists>b \<in> set (allTets g). Some b \<noteq> currTet g \<and> Some b \<noteq> None \<and> (r, c) \<in> tetCells (heap g ! b)))"
    using markTets_taken [OF m] assms(2,3) len by simp
  then show ?thesis
    using blank_taken [OF assms(2-5)] by (auto simp: landedCells_def landedPieces_def)
qed

lemma rowFilled_full:
  assumes le: "landedExcluding None g = Inr l" and r: "0 \<le> r" "r < 16"
  shows "rowFilled l r = Inr (rowFull g r)"
proof -
  have len: "length l = 16" by (rule landedExcluding_length [OF le])
  have "list_all (\<lambda>col. (l ! nat r) (int col) \<noteq> Some 0) [0..<10]
      \<longleftrightarrow> (\<forall>col < 10. taken l r (int col))"
    by (auto simp: list_all_iff taken_def)
  also have "\<dots> \<longleftrightarrow> (\<forall>col < 10. (r, int col) \<in> landedCells g)"
    using landedExcluding_cells [OF le r] by simp
  also have "\<dots> \<longleftrightarrow> rowFull g r"
  proof
    assume a: "\<forall>col < 10. (r, int col) \<in> landedCells g"
    show "rowFull g r"
      unfolding rowFull_def BOARD_COL_NUM_def
    proof
      fix c :: int assume "c \<in> {0..<10}"
      then have "nat c < 10" "int (nat c) = c" by auto
      then show "(r, c) \<in> landedCells g" using a by metis
    qed
  next
    assume "rowFull g r"
    then show "\<forall>col < 10. (r, int col) \<in> landedCells g"
      by (auto simp: rowFull_def BOARD_COL_NUM_def)
  qed
  finally show ?thesis using r len by (simp add: rowFilled_def jsIndex_def)
qed

lemma collectFull_filter:
  assumes le: "landedExcluding None g = Inr l" and "\<forall>r \<in> set rows. 0 \<le> r \<and> r < 16"
  shows "collectFull l rows = Inr (filter (rowFull g) rows)"
  using assms(2)
proof (induction rows)
  case Nil
  then show ?case by simp
next
  case (Cons r rows)
  then show ?case using rowFilled_full [OF le, of r] by simp
qed

lemma collided_score:
  assumes wf: "wellFormed g" and row: "0 \<le> fst (topLeft (heap g ! a))"
  shows "\<exists>g'. collided a g = Inr g'
    \<and> score g' = score g +
        (if fullRowsFrom g (fst (topLeft (heap g ! a))) = [] then 0
         else rowScore (length (fullRowsFrom g (fst (topLeft (heap g ! a))))))"
proof -
  obtain l where gl: "getLanded None g = Inr (l, g\<lparr>landed := l, updateLanded := False\<rparr>)"
    and le: "landedExcluding None g = Inr l"
    using getLanded_None_wf [OF wf] by blast
  let ?g1 = "g\<lparr>landed := l, updateLanded := False\<rparr>"
  let ?fr = "fullRowsFrom g (fst (topLeft (heap g ! a)))"
  have "\<forall>r \<in> set [fst (topLeft (heap g ! a))..BOARD_ROW_NUM - 1]. 0 \<le> r \<and> r < 16"
    using row by (auto simp: BOARD_ROW_NUM_def)
  then have cf: "collectFull l [fst (topLeft (heap ?g1 ! a))..BOARD_ROW_NUM - 1] = Inr ?fr"
    using collectFull_filter [OF le] by (simp add: fullRowsFrom_def)
  let ?g2 = "?g1\<lparr>updateLanded := True\<rparr>"
  show ?thesis
  proof (cases "?fr = []")
    case True
    then have "collided a g = Inr ?g2" using gl cf by (simp add: collided_def Let_def)
    then show ?thesis using True by simp
  next
    case False
    let ?g2s = "?g2\<lparr>score := score ?g2 + rowScore (length ?fr)\<rparr>"
    have "piecesOK ?g2s" using wellFormed_pieces [OF wf] by simp
    then obtain g3 where a3: "alterShapes ?fr ?g2s = Inr g3"
      using alterShapes_ok [of ?g2s ?fr] by auto
    have s3: "score g3 = score g + rowScore (length ?fr)"
      using alterShapes_score [OF a3] by simp
    have "collided a g = Inr (g3\<lparr>updateLanded := True, moveLoops := moveLoops g3 @ [a]\<rparr>)"
      using gl cf False a3 by (simp add: collided_def Let_def)
    then show ?thesis using False s3 by simp
  qed
qed

text \<open>
  \<^verbatim>\<open>moveDown\<close> on the living piece of a well-formed state: when the piece cannot go
  down, the call is \<^verbatim>\<open>collided\<close> in a state that is well formed, with the same pieces
  and the same score.
\<close>

lemma moveDown_landing:
  assumes wf: "wellFormed g" and cur: "currTet g = Some a" and can: "canTetMove g"
  shows "\<exists>b g1. doesTetCollideBot a (fst (topLeft (heap g ! a)) + 1, snd (topLeft (heap g ! a))) g
        = Inr (b, g1)
    \<and> (if b
        then moveDown a g = collided a (g1\<lparr>newTet := True, currTet := None, updateLanded := True\<rparr>)
          \<and> wellFormed (g1\<lparr>newTet := True, currTet := None, updateLanded := True\<rparr>)
          \<and> heap g1 = heap g \<and> allTets g1 = allTets g \<and> score g1 = score g
          \<and> 0 \<le> fst (topLeft (heap g ! a))
        else moveDown a g
          = Inr (setTopLeft a (fst (topLeft (heap g ! a)) + 1, snd (topLeft (heap g ! a))) g1)
          \<and> score g1 = score g)"
proof -
  let ?t = "heap g ! a"
  let ?pot = "(fst (topLeft ?t) + 1, snd (topLeft ?t))"
  obtain l where gl: "getLanded (Some a) g = Inr (l, g\<lparr>landed := l, updateLanded := False\<rparr>)"
    and le: "landedExcluding None g = Inr l"
    using getLanded_curr_wf [OF wf cur] by blast
  let ?g1 = "g\<lparr>landed := l, updateLanded := False\<rparr>"
  have lv: "live ?t" using wf cur by (auto simp: wellFormed_def)
  have row: "0 \<le> fst (topLeft ?t)" using lv by (simp add: live_def)
  have len: "length l = 16" by (rule landedExcluding_length [OF le])
  obtain b where bs: "botScan l ?pot (shapeCells (shape ?t)) = Inr b"
    using botScan_total [OF len, of ?pot "shapeCells (shape ?t)"] row by auto
  have col: "doesTetCollideBot a ?pot g = Inr (b, ?g1)"
    using gl bs by (simp add: doesTetCollideBot_def)
  let ?gL = "?g1\<lparr>newTet := True, currTet := None, updateLanded := True\<rparr>"
  have "piecesOK ?gL" using wellFormed_pieces [OF wf] by simp
  then have "wellFormed ?gL" by (intro pieces_wellFormed) simp_all
  then show ?thesis using col row by (simp add: moveDown_def Let_def)
qed

lemma squaresGame_wf: "wellFormed squaresGame"
  by (simp add: wellFormed_def squaresGame_def initGame_def cacheCoherent_def nonnegCells_def
      rowsOK_def tetCells_def occupied_def shapeCells_def pieceO_def BOARD_ROW_NUM_def)

lemma squaresGame_rows: "fullRowsFrom squaresGame 14 = [14, 15]"
  by code_simp

text \<open>
  C6. In a well-formed state, \<^verbatim>\<open>collided\<close> on a piece that is not above the board
  returns, and the score afterwards is the score before plus the amount
  \<open>n ** (1 + (n - 1) * 0.1) * 10000\<close> for the number \<open>n\<close> of full rows from the top row of
  the piece down, and plus nothing when no row is full. A landing that clears one row adds
  10000; a landing that clears \<open>n\<close> rows at once, for \<open>n\<close> in \<open>{2, 3, 4}\<close>, adds strictly
  more than \<open>n\<close> times 10000, also when the amount is computed within one percent of the
  exact value. The formula is taken over the reals.
\<close>

theorem collided_awards:
  assumes wf: "wellFormed g" and row: "0 \<le> fst (topLeft (heap g ! a))"
  shows "\<exists>g' n. collided a g = Inr g'
    \<and> n = length (fullRowsFrom g (fst (topLeft (heap g ! a))))
    \<and> score g' = score g + (if n = 0 then 0 else rowScore n)
    \<and> (n = 1 \<longrightarrow> score g' = score g + 10000)
    \<and> (n \<in> {2, 3, 4} \<longrightarrow>
          score g + real n * 10000 < score g'
          \<and> (\<forall>v. \<bar>v - rowScore n\<bar> \<le> rowScore n / 100 \<longrightarrow> score g + real n * 10000 < score g + v))"
proof -
  let ?n = "length (fullRowsFrom g (fst (topLeft (heap g ! a))))"
  obtain g' where c: "collided a g = Inr g'"
    and s: "score g' = score g + (if ?n = 0 then 0 else rowScore ?n)"
    using collided_score [OF wf row] by auto
  have one: "?n = 1 \<longrightarrow> score g' = score g + 10000"
    using s rowScore_one by simp
  have more: "?n \<in> {2, 3, 4} \<longrightarrow>
          score g + real ?n * 10000 < score g'
          \<and> (\<forall>v. \<bar>v - rowScore ?n\<bar> \<le> rowScore ?n / 100 \<longrightarrow> score g + real ?n * 10000 < score g + v)"
  proof
    assume n: "?n \<in> {2, 3, 4}"
    then have "?n \<noteq> 0" by auto
    then have "score g' = score g + rowScore ?n" using s by simp
    then show "score g + real ?n * 10000 < score g'
          \<and> (\<forall>v. \<bar>v - rowScore ?n\<bar> \<le> rowScore ?n / 100 \<longrightarrow> score g + real ?n * 10000 < score g + v)"
      using rowScore_more [OF n] rowScore_one by simp
  qed
  show ?thesis using c s one more by blast
qed

theorem collided_awards_witness:
  "\<exists>g'. collided 4 squaresGame = Inr g' \<and> score g' = rowScore 2 \<and> 20000 < score g'"
proof -
  have t: "fst (topLeft (heap squaresGame ! 4)) = 14" "score squaresGame = 0"
    by (simp_all add: squaresGame_def initGame_def)
  have "0 \<le> fst (topLeft (heap squaresGame ! 4))" by (simp add: t)
  from collided_awards [OF squaresGame_wf this, unfolded t squaresGame_rows]
  show ?thesis by (auto simp: numeral_2_eq_2)
qed

text \<open>
  C2. \<^verbatim>\<open>rotate\<close> on the living piece, of a type in \<open>[0..6]\<close>, with rotation in
  \<open>[0..3]\<close> and not above the board, returns. The candidate shape is the catalog shape for
  rotation \<open>(rotation + 1) mod 4\<close>. If one of its occupied cells, placed at the current
  \<^verbatim>\<open>topLeft\<close>, is left or right of the board, below it, or occupied by another
  piece of \<^verbatim>\<open>allTets\<close>, the call returns false and type, rotation, pivot, position,
  shape and perimeter of the piece are as before. Otherwise it returns true, the rotation is
  the new one, shape and perimeter are those of the candidate, the pivot has been added to
  the column, and the pivot is 0.
\<close>

theorem rotate_all_or_nothing:
  assumes cur: "currTet g = Some a" and a: "a < length (heap g)"
    and ty: "0 \<le> type (heap g ! a)" "type (heap g ! a) < 7"
    and rot: "0 \<le> rotation (heap g ! a)" "rotation (heap g ! a) \<le> 3"
    and row: "0 \<le> fst (topLeft (heap g ! a))"
    and coh: "cacheCoherent g" and lan: "landedExcluding None g = Inr l"
  shows "\<exists>ok g' cand pm. rotate a g = Inr (ok, g')
    \<and> getShapeMatrix (type (heap g ! a)) ((rotation (heap g ! a) + 1) mod 4) = Inr (cand, pm)
    \<and> (if \<exists>(r, c) \<in> occupied cand (topLeft (heap g ! a)).
             c < 0 \<or> c \<ge> BOARD_COL_NUM \<or> r \<ge> BOARD_ROW_NUM \<or> (r, c) \<in> othersCells a g
        then \<not> ok
          \<and> type (heap g' ! a) = type (heap g ! a)
          \<and> rotation (heap g' ! a) = rotation (heap g ! a)
          \<and> pivot (heap g' ! a) = pivot (heap g ! a)
          \<and> topLeft (heap g' ! a) = topLeft (heap g ! a)
          \<and> shape (heap g' ! a) = shape (heap g ! a)
          \<and> perim (heap g' ! a) = perim (heap g ! a)
        else ok
          \<and> type (heap g' ! a) = type (heap g ! a)
          \<and> rotation (heap g' ! a) = (rotation (heap g ! a) + 1) mod 4
          \<and> shape (heap g' ! a) = cand
          \<and> perim (heap g' ! a) = getPerim cand
          \<and> topLeft (heap g' ! a)
              = (fst (topLeft (heap g ! a)), snd (topLeft (heap g ! a)) + pivot (heap g ! a))
          \<and> pivot (heap g' ! a) = 0)"
proof -
  let ?t = "heap g ! a"
  let ?g1 = "g\<lparr>landed := l, updateLanded := False\<rparr>"
  let ?potRot = "nextRotation (rotation ?t)"
  have gl: "getLanded None g = Inr (l, ?g1)" by (rule getLanded_coherent [OF coh lan])
  have pr: "?potRot = (rotation ?t + 1) mod 4" by (rule nextRotation_mod [OF rot])
  have pr_range: "0 \<le> ?potRot" "?potRot \<le> 3" using rot by (auto simp: nextRotation_def)
  obtain cand where sm: "getShapeMatrix (type ?t) ((rotation ?t + 1) mod 4) = Inr (cand, pivotMaxOf (type ?t))"
    using getShapeMatrix_total [OF ty pr_range] unfolding pr by blast
  have sm2: "getShapeMatrix (type ?t) ?potRot = Inr (cand, pivotMaxOf (type ?t))"
    using sm pr by simp
  let ?t1 = "?t\<lparr>pivotMax := pivotMaxOf (type ?t)\<rparr>"
  have len: "length l = 16" by (rule landedExcluding_length [OF lan])
  obtain b where rb: "rotateBlocked l (topLeft ?t) (shapeCells cand) = Inr b"
    and b: "b \<longleftrightarrow> (\<exists>rc \<in> set (shapeCells cand).
        int (snd rc) + snd (topLeft ?t) < 0 \<or> int (snd rc) + snd (topLeft ?t) \<ge> 10
        \<or> int (fst rc) + fst (topLeft ?t) \<ge> 16
        \<or> taken l (int (fst rc) + fst (topLeft ?t)) (int (snd rc) + snd (topLeft ?t)))"
    using rotateBlocked_iff [OF len row, of "shapeCells cand"] by blast
  have cell: "(c < 0 \<or> c \<ge> 10 \<or> r \<ge> 16 \<or> taken l r c)
      \<longleftrightarrow> (c < 0 \<or> c \<ge> 10 \<or> r \<ge> 16 \<or> (r, c) \<in> othersCells a g)" if "0 \<le> r" for r c
  proof (cases "c < 0 \<or> c \<ge> 10 \<or> r \<ge> 16")
    case True
    then show ?thesis by auto
  next
    case False
    have "taken l r c \<longleftrightarrow> (r, c) \<in> othersCells a g"
      by (rule landedExcluding_taken [OF lan cur]) (use that False in auto)
    then show ?thesis by simp
  qed
  have b': "b \<longleftrightarrow> (\<exists>(r, c) \<in> occupied cand (topLeft ?t).
             c < 0 \<or> c \<ge> BOARD_COL_NUM \<or> r \<ge> BOARD_ROW_NUM \<or> (r, c) \<in> othersCells a g)"
    unfolding b occupied_Bex BOARD_COL_NUM_def BOARD_ROW_NUM_def
    using cell row by (intro bex_cong refl) simp
  show ?thesis
  proof (cases b)
    case True
    have "rotate a g = Inr (False, ?g1\<lparr>heap := (heap ?g1)[a := ?t1]\<rparr>)"
      using gl sm2 rb True by (simp add: rotate_def Let_def)
    then show ?thesis using True b' sm a
      by (intro exI [of _ False] exI [of _ "?g1\<lparr>heap := (heap ?g1)[a := ?t1]\<rparr>"]
          exI [of _ cand] exI [of _ "pivotMaxOf (type ?t)"]) simp
  next
    case False
    let ?t2 = "setShape cand (?t1\<lparr>topLeft := (fst (topLeft ?t1), snd (topLeft ?t1) + pivot ?t1),
                                 pivot := 0, rotation := (rotation ?t + 1) mod 4\<rparr>)"
    have "rotate a g = Inr (True, ?g1\<lparr>heap := (heap ?g1)[a := ?t2]\<rparr>)"
      using gl sm2 rb False pr by (simp add: rotate_def Let_def)
    then show ?thesis using False b' sm a
      by (intro exI [of _ True] exI [of _ "?g1\<lparr>heap := (heap ?g1)[a := ?t2]\<rparr>"]
          exI [of _ cand] exI [of _ "pivotMaxOf (type ?t)"]) (simp add: setShape_def)
  qed
qed

theorem rotate_all_or_nothing_witness:
  "\<exists>g'. rotate 0 (soloGame pieceJ) = Inr (True, g')
     \<and> rotation (heap g' ! 0) = 1 \<and> shape (heap g' ! 0) = [[0, 1], [0, 1], [1, 1]]
     \<and> topLeft (heap g' ! 0) = (0, 4) \<and> pivot (heap g' ! 0) = 0"
proof -
  let ?g = "soloGame pieceJ"
  have t: "heap ?g ! 0 = pieceJ" by (simp add: soloGame_def)
  have f: "type pieceJ = 1" "rotation pieceJ = 0" "pivot pieceJ = 0" "topLeft pieceJ = (0, 4)"
    by (simp_all add: pieceJ_def)
  have cur: "currTet ?g = Some 0" and a: "0 < length (heap ?g)"
    by (simp_all add: soloGame_def)
  have ty: "0 \<le> type (heap ?g ! 0)" "type (heap ?g ! 0) < 7"
    and rot: "0 \<le> rotation (heap ?g ! 0)" "rotation (heap ?g ! 0) \<le> 3"
    and row: "0 \<le> fst (topLeft (heap ?g ! 0))"
    unfolding t f by simp_all
  have coh: "cacheCoherent ?g" by (simp add: cacheCoherent_def soloGame_def initGame_def)
  have lan: "landedExcluding None ?g = Inr blankLanded" by (rule soloGame_landed)
  note m = rotate_all_or_nothing [OF cur a ty rot row coh lan, unfolded t f soloGame_others]
  then obtain ok g' cand pm where r: "rotate 0 ?g = Inr (ok, g')"
    and c: "getShapeMatrix 1 ((0 + 1) mod 4) = Inr (cand, pm)"
    and e: "if \<exists>(r, c) \<in> occupied cand (0, 4).
             c < 0 \<or> c \<ge> BOARD_COL_NUM \<or> r \<ge> BOARD_ROW_NUM \<or> (r, c) \<in> {}
        then \<not> ok
          \<and> type (heap g' ! 0) = 1
          \<and> rotation (heap g' ! 0) = 0
          \<and> pivot (heap g' ! 0) = 0
          \<and> topLeft (heap g' ! 0) = (0, 4)
          \<and> shape (heap g' ! 0) = shape pieceJ
          \<and> perim (heap g' ! 0) = perim pieceJ
        else ok
          \<and> type (heap g' ! 0) = 1
          \<and> rotation (heap g' ! 0) = (0 + 1) mod 4 \<and> shape (heap g' ! 0) = cand
          \<and> perim (heap g' ! 0) = getPerim cand
          \<and> topLeft (heap g' ! 0) = (fst (0 :: int, 4 :: int), snd (0 :: int, 4 :: int) + 0)
          \<and> pivot (heap g' ! 0) = 0"
    by blast
  have cand: "cand = [[0, 1], [0, 1], [1, 1]]"
    using c by (simp add: getShapeMatrix_def matrixMatrix_def jsIndex_def)
  have "\<not> (\<exists>(r, c) \<in> occupied cand (0, 4).
             c < 0 \<or> c \<ge> BOARD_COL_NUM \<or> r \<ge> BOARD_ROW_NUM \<or> (r, c) \<in> {})"
    by (simp add: cand occupied_def shapeCells_def BOARD_COL_NUM_def BOARD_ROW_NUM_def)
  then show ?thesis using r e cand by auto
qed

text \<open>
  C4, as the source has it. \<^verbatim>\<open>doesTetCollideSide\<close> on the living piece tests against
  the landed array built from the other pieces of \<^verbatim>\<open>allTets\<close>: the piece itself is
  left out. With the candidate cells inside the rows of the board, it returns, and it
  returns true exactly when an occupied cell of the shape at the candidate position is left
  of the board, right of it, or occupied by another piece.
\<close>

theorem doesTetCollideSide_living:
  assumes cur: "currTet g = Some a"
    and coh: "cacheCoherent g" and lan: "landedExcluding None g = Inr l"
    and rows: "\<forall>(r, c) \<in> occupied (shape (heap g ! a)) potTopLeft. 0 \<le> r \<and> r < BOARD_ROW_NUM"
  shows "\<exists>b g'. doesTetCollideSide a potTopLeft direction g = Inr (b, g')
    \<and> (b \<longleftrightarrow> (\<exists>(r, c) \<in> occupied (shape (heap g ! a)) potTopLeft.
                 c < 0 \<or> c \<ge> BOARD_COL_NUM \<or> (r, c) \<in> othersCells a g))"
proof -
  let ?t = "heap g ! a"
  let ?g1 = "g\<lparr>landed := l, updateLanded := False\<rparr>"
  have gl: "getLanded None g = Inr (l, ?g1)" by (rule getLanded_coherent [OF coh lan])
  have len: "length l = 16" by (rule landedExcluding_length [OF lan])
  have rows': "\<forall>rc \<in> set (shapeCells (shape ?t)).
      0 \<le> int (fst rc) + fst potTopLeft \<and> int (fst rc) + fst potTopLeft < 16"
    using rows unfolding occupied_def BOARD_ROW_NUM_def by (auto simp: add.commute)
  obtain h where ss: "sideScan l potTopLeft (shapeCells (shape ?t)) = Inr h"
    and h: "h \<noteq> NoHit \<longleftrightarrow> (\<exists>rc \<in> set (shapeCells (shape ?t)).
        int (snd rc) + snd potTopLeft < 0 \<or> int (snd rc) + snd potTopLeft \<ge> 10
        \<or> taken l (int (fst rc) + fst potTopLeft) (int (snd rc) + snd potTopLeft))"
    using sideScan_iff [OF len rows'] by blast
  have cell: "(c < 0 \<or> c \<ge> 10 \<or> taken l r c)
      \<longleftrightarrow> (c < 0 \<or> c \<ge> 10 \<or> (r, c) \<in> othersCells a g)" if "0 \<le> r" "r < 16" for r c
  proof (cases "c < 0 \<or> c \<ge> 10")
    case True
    then show ?thesis by auto
  next
    case False
    have "taken l r c \<longleftrightarrow> (r, c) \<in> othersCells a g"
      by (rule landedExcluding_taken [OF lan cur]) (use that False in auto)
    then show ?thesis by simp
  qed
  have h': "h \<noteq> NoHit \<longleftrightarrow> (\<exists>(r, c) \<in> occupied (shape ?t) potTopLeft.
                 c < 0 \<or> c \<ge> BOARD_COL_NUM \<or> (r, c) \<in> othersCells a g)"
    unfolding h occupied_Bex BOARD_COL_NUM_def
    using cell rows' by (intro bex_cong refl) simp
  have "\<exists>g'. doesTetCollideSide a potTopLeft direction g = Inr (h \<noteq> NoHit, g')"
    using gl ss by (cases h) (simp_all add: doesTetCollideSide_def Let_def)
  then show ?thesis using h' by blast
qed

theorem doesTetCollideSide_living_witness:
  "\<exists>g'. doesTetCollideSide 0 (0, 3) None (soloGame pieceO) = Inr (False, g')"
proof -
  let ?g = "soloGame pieceO"
  have t: "heap ?g ! 0 = pieceO" by (simp add: soloGame_def)
  have occ: "occupied (shape pieceO) (0, 3) = {(0, 3), (0, 4), (1, 3), (1, 4)}"
    by (auto simp: pieceO_def occupied_def shapeCells_def)
  have "\<exists>b g'. doesTetCollideSide 0 (0, 3) None ?g = Inr (b, g')
    \<and> (b \<longleftrightarrow> (\<exists>(r, c) \<in> occupied (shape (heap ?g ! 0)) (0, 3).
                 c < 0 \<or> c \<ge> BOARD_COL_NUM \<or> (r, c) \<in> othersCells 0 ?g))"
  proof (rule doesTetCollideSide_living [of ?g 0 blankLanded])
    show "currTet ?g = Some 0" by (simp add: soloGame_def)
    show "cacheCoherent ?g" by (simp add: cacheCoherent_def soloGame_def initGame_def)
    show "landedExcluding None ?g = Inr blankLanded" by (rule soloGame_landed)
    show "\<forall>(r, c) \<in> occupied (shape (heap ?g ! 0)) (0, 3). 0 \<le> r \<and> r < BOARD_ROW_NUM"
      by (simp add: t occ BOARD_ROW_NUM_def)
  qed
  then show ?thesis
    by (auto simp: t occ soloGame_others BOARD_COL_NUM_def)
qed

text \<open>
  C4, as the claim states it, fails. In a new game whose first piece is the O piece, at
  \<open>(0, 4)\<close>, the candidate position \<open>(0, 3)\<close> overlaps the piece's own cells, so the test
  against an array that includes the piece says that it collides;
  \<^verbatim>\<open>doesTetCollideSide\<close> returns false, and the piece can move left.
\<close>

theorem doesTetCollideSide_self_counterexample:
  "(case Game_new 3 1 3 of
      Inl e \<Rightarrow> False
    | Inr g \<Rightarrow> currTet g = Some 0 \<and> allTets g = [0] \<and> specCollideSide 0 (0, 3) g
        \<and> (case doesTetCollideSide 0 (0, 3) None g of Inl e \<Rightarrow> False | Inr (b, g') \<Rightarrow> \<not> b))"
  by code_simp

subsection \<open>The first piece\<close>

lemma ensureNextTet_not_SZ:
  assumes "1 \<le> d1" "d1 \<le> 6" and "nextTet g = None"
  shows "\<exists>g1 a. ensureNextTet d1 d2 g = Inr g1 \<and> nextTet g1 = Some a
    \<and> type (heap g1 ! a) = (if d1 = 4 \<or> d1 = 6 then d1 - 1 else d1)
    \<and> type (heap g1 ! a) \<noteq> 4 \<and> type (heap g1 ! a) \<noteq> 6"
proof -
  let ?t = "if d1 = 4 \<or> d1 = 6 then d1 - 1 else d1"
  have r: "1 \<le> ?t" "?t < 7" "?t \<noteq> 4" "?t \<noteq> 6" using assms(1,2) by auto
  then have ty: "Tet_type (Some ?t) d2 = ?t" by (simp add: Tet_type_def)
  obtain s where "getShapeMatrix ?t 0 = Inr (s, pivotMaxOf ?t)"
    using getShapeMatrix_total [of ?t 0] r by auto
  then obtain t where t: "Tet_new (Some ?t) d2 = Inr t" "type t = ?t"
    using r unfolding Tet_new_def Let_def ty
    by (simp add: setShape_def blankTet_def split del: if_split)
  show ?thesis
    using assms(3) t r
    by (simp add: ensureNextTet_def allocTet_def Let_def split del: if_split)
qed

text \<open>
  C5 fails on the source. When the value drawn in \<^verbatim>\<open>createTet\<close> is 0, the constructor
  is asked for type 0, its guard fails, and it draws again; with 4 drawn there, the first
  piece of the game has type 4, the S piece.
\<close>

theorem createTet_first_piece_S:
  "(case Game_new 0 4 1 of
      Inl e \<Rightarrow> False
    | Inr g \<Rightarrow> currTet g = Some 0 \<and> allTets g = [0] \<and> type (heap g ! 0) = 4)"
  by code_simp

subsection \<open>Landed pieces that overlap\<close>

lemma overlapTrace_state:
  "(case Game_new 1 1 1 of
      Inl e \<Rightarrow> False
    | Inr g0 \<Rightarrow>
       (case handleEvents overlapTrace g0 of
          Inl e \<Rightarrow> False
        | Inr g \<Rightarrow> currTet g = None \<and> gameOver g = False \<and> landedPieces g = [0, 1]
            \<and> (15, 4) \<in> tetCells (heap g ! 0) \<and> (15, 4) \<in> tetCells (heap g ! 1)))"
  by code_simp

lemma overlap_breaks_invariant:
  assumes "landedPieces g = [0, 1]"
    and "(15, 4) \<in> tetCells (heap g ! 0)" "(15, 4) \<in> tetCells (heap g ! 1)"
  shows "\<not> landedInvariant g"
proof
  assume "landedInvariant g"
  then have a: "\<forall>i < length (landedPieces g). \<forall>j < length (landedPieces g). i \<noteq> j \<longrightarrow>
      tetCells (heap g ! (landedPieces g ! i)) \<inter> tetCells (heap g ! (landedPieces g ! j)) = {}"
    by (simp add: landedInvariant_def)
  have "tetCells (heap g ! (landedPieces g ! 0)) \<inter> tetCells (heap g ! (landedPieces g ! 1)) = {}"
    using a [rule_format, of 0 1] assms(1) by simp
  then show False using assms by auto
qed

lemma overlapTrace_breaks_invariant:
  "\<exists>g0 g. Game_new 1 1 1 = Inr g0 \<and> handleEvents overlapTrace g0 = Inr g \<and> \<not> landedInvariant g"
  using overlapTrace_state overlap_breaks_invariant
  by (auto split: sum.splits)

text \<open>
  C1 fails on the source. After the events of \<open>overlapTrace\<close> in a new game no piece is
  living, the landed pieces are the two J pieces, and both occupy the cell in row 15 and
  column 4. The second piece was rotated with a pivot of 1: \<^verbatim>\<open>rotate\<close> tests the
  candidate shape at the current column and then moves the piece by the pivot, to a place
  it has not tested.
\<close>

theorem landed_pieces_overlap:
  "\<exists>g0 g. Game_new 1 1 1 = Inr g0 \<and> handleEvents overlapTrace g0 = Inr g
     \<and> currTet g = None \<and> landedPieces g = [0, 1]
     \<and> (15, 4) \<in> tetCells (heap g ! 0) \<inter> tetCells (heap g ! 1)"
  using overlapTrace_state by (auto split: sum.splits)

end
